theory Spec2Isabelle
  imports Main "HOL-Library.Word" "HOL-Library.AList" "HOL-Library.Multiset"
begin

section \<open>The deferred garbage collector of vkgc.cc\<close>

text \<open>
  A shallow embedding of \<^verbatim>\<open>vkgc::garbage_collector\<close> (vkgc.hh, vkgc.cc).

  \<^item> A resource identity is a \<^verbatim>\<open>void*\<close>: a number, with \<open>nullptr\<close> = 0.
  \<^item> A \<^verbatim>\<open>std::function<void()>\<close> is \<open>closure option\<close>: \<open>None\<close> is the empty
    function object (its \<^verbatim>\<open>operator bool\<close> is false), \<open>Some f\<close> a callable
    identified by \<open>f\<close>. Invoking it is an event of the trace. Closures run while the
    mutex is held, so they cannot call back into the collector.
  \<^item> \<^verbatim>\<open>size_t\<close> and \<^verbatim>\<open>uint64_t\<close> are 64-bit words: \<open>+\<close> and \<open>-\<close> wrap.
  \<^item> The two \<^verbatim>\<open>std::unordered_map\<close>s are association lists with distinct keys;
    \<^verbatim>\<open>operator[]\<close> is get-or-create (a new key goes to the end), \<^verbatim>\<open>find\<close> is
    \<open>map_of\<close>, \<^verbatim>\<open>erase\<close> is \<open>AList.delete\<close>. An iterator is identified with its
    key, and the order of iteration, which C++ leaves open, is the order of the list.
  \<^item> The \<^verbatim>\<open>std::priority_queue<trigger>\<close> with the inverted \<^verbatim>\<open>operator<\<close> is a
    list kept sorted by ascending target value: \<^verbatim>\<open>push\<close> is \<open>insort_key\<close>,
    \<^verbatim>\<open>top\<close> the head, \<^verbatim>\<open>pop\<close> the tail. Among equal targets C++ leaves the order
    open; here the trigger pushed last is popped first.
  \<^item> \<^verbatim>\<open>vkGetSemaphoreCounterValue\<close> is an input of \<open>collect\<close>: a function from
    semaphores to the value polled.
  \<^item> The recursion of \<^verbatim>\<open>check_delete\<close> runs on the call stack; the model takes the
    number of frames available and returns \<open>StackOverflow\<close> when they are used up.
  \<^item> The trace lists, in order, the calls on the mutex and on the device, the closures
    invoked, and the decrements of a dependency count, each with the value it found.
\<close>

type_synonym ptr = nat
type_synonym VkSemaphore = nat
type_synonym closure = nat
type_synonym size_t = "64 word"
type_synonym uint64_t = "64 word"

definition nullptr :: ptr where
  "nullptr = 0"

datatype event =
    MutexLock
  | MutexUnlock
  | RunCleanup ptr closure
  | RunCallback closure
  | Decrement ptr size_t
  | DestroySemaphore VkSemaphore
  | DeviceWaitIdle

datatype error = StackOverflow | InvalidIterator | Deadlock

record dependency_info =
  dependency_count :: size_t
  dependents :: "ptr list"
  cleanup :: "closure option"

datatype trigger = Trigger (trigger_value: uint64_t) (dependent: ptr) (callback: "closure option")

record semaphore_info =
  triggers :: "trigger list"
  should_destroy :: bool

record garbage_collector =
  resources :: "(ptr \<times> dependency_info) list"
  semaphore_dependencies :: "(VkSemaphore \<times> semaphore_info) list"
  mutex_locked :: bool
  trace :: "event list"

definition init :: garbage_collector where
  "init = \<lparr>resources = [], semaphore_dependencies = [], mutex_locked = False, trace = []\<rparr>"

definition default_dependency_info :: dependency_info where
  "default_dependency_info = \<lparr>dependency_count = 0, dependents = [], cleanup = None\<rparr>"

definition default_semaphore_info :: semaphore_info where
  "default_semaphore_info = \<lparr>triggers = [], should_destroy = False\<rparr>"

subsection \<open>Helpers: the trace, the mutex, \<^verbatim>\<open>operator[]\<close>\<close>

definition emit :: "event \<Rightarrow> garbage_collector \<Rightarrow> garbage_collector" where
  "emit e s = s\<lparr>trace := trace s @ [e]\<rparr>"

text \<open>\<^verbatim>\<open>std::unique_lock<std::mutex> lk(mutex)\<close>: locking a mutex that is held never returns.\<close>

definition lock :: "garbage_collector \<Rightarrow> error + garbage_collector" where
  "lock s = (if mutex_locked s then Inl Deadlock
             else Inr (emit MutexLock (s\<lparr>mutex_locked := True\<rparr>)))"

definition unlock :: "garbage_collector \<Rightarrow> garbage_collector" where
  "unlock s = emit MutexUnlock (s\<lparr>mutex_locked := False\<rparr>)"

text \<open>\<^verbatim>\<open>resources[r]\<close> read: the record of \<open>r\<close>, default-constructed when absent.\<close>

definition resources_at :: "garbage_collector \<Rightarrow> ptr \<Rightarrow> dependency_info" where
  "resources_at s r = (case map_of (resources s) r of None \<Rightarrow> default_dependency_info | Some i \<Rightarrow> i)"

text \<open>\<^verbatim>\<open>resources[r].field = ...\<close>: get-or-create, then write.\<close>

definition modify_resource ::
  "ptr \<Rightarrow> (dependency_info \<Rightarrow> dependency_info) \<Rightarrow> garbage_collector \<Rightarrow> garbage_collector" where
  "modify_resource r f s = s\<lparr>resources := AList.update r (f (resources_at s r)) (resources s)\<rparr>"

definition semaphore_at :: "garbage_collector \<Rightarrow> VkSemaphore \<Rightarrow> semaphore_info" where
  "semaphore_at s sem =
     (case map_of (semaphore_dependencies s) sem of None \<Rightarrow> default_semaphore_info | Some i \<Rightarrow> i)"

definition modify_semaphore ::
  "VkSemaphore \<Rightarrow> (semaphore_info \<Rightarrow> semaphore_info) \<Rightarrow> garbage_collector \<Rightarrow> garbage_collector" where
  "modify_semaphore sem f s =
     s\<lparr>semaphore_dependencies := AList.update sem (f (semaphore_at s sem)) (semaphore_dependencies s)\<rparr>"

text \<open>\<^verbatim>\<open>resources[d].dependency_count--\<close>; the trace records the value before the write.\<close>

definition decrement :: "ptr \<Rightarrow> garbage_collector \<Rightarrow> garbage_collector" where
  "decrement d s =
     emit (Decrement d (dependency_count (resources_at s d)))
       (modify_resource d (\<lambda>i. i\<lparr>dependency_count := dependency_count i - 1\<rparr>) s)"

definition increment :: "ptr \<Rightarrow> garbage_collector \<Rightarrow> garbage_collector" where
  "increment d s = modify_resource d (\<lambda>i. i\<lparr>dependency_count := dependency_count i + 1\<rparr>) s"

text \<open>\<^verbatim>\<open>triggers.push(t)\<close> on the min-heap.\<close>

definition push :: "trigger \<Rightarrow> trigger list \<Rightarrow> trigger list" where
  "push t ts = insort_key trigger_value t ts"

subsection \<open>\<^verbatim>\<open>check_delete\<close>\<close>

text \<open>
  \<open>check_delete n r s\<close> is \<^verbatim>\<open>check_delete(r)\<close> with \<open>n\<close> stack frames left;
  \<open>check_delete_dependents\<close> is its loop over \<^verbatim>\<open>it->second.dependents\<close>.
  \<^verbatim>\<open>resources.find(r)\<close> on an absent key gives \<^verbatim>\<open>end()\<close>, which the code
  dereferences: \<open>InvalidIterator\<close>.
\<close>

fun check_delete :: "nat \<Rightarrow> ptr \<Rightarrow> garbage_collector \<Rightarrow> error + garbage_collector"
  and check_delete_dependents :: "nat \<Rightarrow> ptr list \<Rightarrow> garbage_collector \<Rightarrow> error + garbage_collector"
  where
  "check_delete 0 r s = Inl StackOverflow"
| "check_delete (Suc n) r s =
     (case map_of (resources s) r of
        None \<Rightarrow> Inl InvalidIterator
      | Some info \<Rightarrow>
          if dependency_count info = 0 then
            (case cleanup info of
               None \<Rightarrow> Inr s
             | Some f \<Rightarrow>
                 (case check_delete_dependents n (dependents info) (emit (RunCleanup r f) s) of
                    Inl e \<Rightarrow> Inl e
                  | Inr s' \<Rightarrow> Inr (s'\<lparr>resources := AList.delete r (resources s')\<rparr>)))
          else Inr s)"
| "check_delete_dependents n [] s = Inr s"
| "check_delete_dependents n (d # ds) s =
     (case check_delete n d (decrement d s) of
        Inl e \<Rightarrow> Inl e
      | Inr s' \<Rightarrow> check_delete_dependents n ds s')"

subsection \<open>The public operations\<close>

text \<open>\<^verbatim>\<open>release(void* resource, std::function<void()>&& cleanup)\<close>\<close>

definition release ::
  "nat \<Rightarrow> ptr \<Rightarrow> closure option \<Rightarrow> garbage_collector \<Rightarrow> error + garbage_collector" where
  "release n resource f s =
     (case lock s of
        Inl e \<Rightarrow> Inl e
      | Inr s1 \<Rightarrow>
          (case check_delete n resource (modify_resource resource (\<lambda>i. i\<lparr>cleanup := f\<rparr>) s1) of
             Inl e \<Rightarrow> Inl e
           | Inr s2 \<Rightarrow> Inr (unlock s2)))"

text \<open>\<^verbatim>\<open>release(VkSemaphore sem)\<close>\<close>

definition release_semaphore :: "VkSemaphore \<Rightarrow> garbage_collector \<Rightarrow> error + garbage_collector" where
  "release_semaphore sem s =
     (case lock s of
        Inl e \<Rightarrow> Inl e
      | Inr s1 \<Rightarrow> Inr (unlock (modify_semaphore sem (\<lambda>i. i\<lparr>should_destroy := True\<rparr>) s1)))"

text \<open>\<^verbatim>\<open>depend_many(used_resources, used_resource_count, user_resource)\<close>\<close>

definition depend_many :: "ptr list \<Rightarrow> ptr \<Rightarrow> garbage_collector \<Rightarrow> error + garbage_collector" where
  "depend_many used_resources user_resource s =
     (case lock s of
        Inl e \<Rightarrow> Inl e
      | Inr s1 \<Rightarrow>
          Inr (unlock (fold increment used_resources
                 (modify_resource user_resource
                    (\<lambda>i. i\<lparr>dependents := dependents i @ used_resources\<rparr>) s1))))"

text \<open>\<^verbatim>\<open>depend(void* used_resource, void* user_resource)\<close>\<close>

definition depend :: "ptr \<Rightarrow> ptr \<Rightarrow> garbage_collector \<Rightarrow> error + garbage_collector" where
  "depend used_resource user_resource s = depend_many [used_resource] user_resource s"

text \<open>\<^verbatim>\<open>depend(void* used_resource, VkSemaphore timeline, uint64_t value)\<close>\<close>

definition depend_timeline ::
  "ptr \<Rightarrow> VkSemaphore \<Rightarrow> uint64_t \<Rightarrow> garbage_collector \<Rightarrow> error + garbage_collector" where
  "depend_timeline used_resource timeline v s =
     (case lock s of
        Inl e \<Rightarrow> Inl e
      | Inr s1 \<Rightarrow>
          Inr (unlock (modify_semaphore timeline
                 (\<lambda>i. i\<lparr>triggers := push (Trigger v used_resource None) (triggers i)\<rparr>)
                 (increment used_resource s1))))"

text \<open>\<^verbatim>\<open>add_trigger(timeline, value, callback)\<close>\<close>

definition add_trigger ::
  "VkSemaphore \<Rightarrow> uint64_t \<Rightarrow> closure option \<Rightarrow> garbage_collector \<Rightarrow> error + garbage_collector" where
  "add_trigger timeline v f s =
     (case lock s of
        Inl e \<Rightarrow> Inl e
      | Inr s1 \<Rightarrow>
          Inr (unlock (modify_semaphore timeline
                 (\<lambda>i. i\<lparr>triggers := push (Trigger v nullptr f) (triggers i)\<rparr>) s1)))"

text \<open>The body of the \<^verbatim>\<open>while\<close> loop of \<open>collect\<close>, for the trigger at the top of the heap.\<close>

definition fire :: "nat \<Rightarrow> trigger \<Rightarrow> garbage_collector \<Rightarrow> error + garbage_collector" where
  "fire n t s =
     (let s1 = (case callback t of None \<Rightarrow> s | Some f \<Rightarrow> emit (RunCallback f) s)
      in if dependent t \<noteq> nullptr
         then check_delete n (dependent t) (decrement (dependent t) s1)
         else Inr s1)"

text \<open>
  The \<^verbatim>\<open>while\<close> loop of \<open>collect\<close> on one heap, \<open>v\<close> the value polled: it returns the
  triggers left in the heap.
\<close>

fun fire_triggers ::
  "nat \<Rightarrow> uint64_t \<Rightarrow> trigger list \<Rightarrow> garbage_collector \<Rightarrow> error + (trigger list \<times> garbage_collector)"
  where
  "fire_triggers n v [] s = Inr ([], s)"
| "fire_triggers n v (t # ts) s =
     (if trigger_value t \<le> v then
        (case fire n t s of
           Inl e \<Rightarrow> Inl e
         | Inr s' \<Rightarrow> fire_triggers n v ts s')
      else Inr (t # ts, s))"

text \<open>
  The \<^verbatim>\<open>for\<close> loop of \<open>collect\<close> over the entries of \<^verbatim>\<open>semaphore_dependencies\<close>: it
  returns the entries that stay. Nothing run inside the loop reads or writes the
  semaphore map, so the entries are passed as a list and written back by \<open>collect\<close>.
\<close>

fun collect_loop ::
  "nat \<Rightarrow> (VkSemaphore \<Rightarrow> uint64_t) \<Rightarrow> (VkSemaphore \<times> semaphore_info) list \<Rightarrow> garbage_collector
   \<Rightarrow> error + ((VkSemaphore \<times> semaphore_info) list \<times> garbage_collector)"
  where
  "collect_loop n vals [] s = Inr ([], s)"
| "collect_loop n vals ((sem, info) # rest) s =
     (case fire_triggers n (vals sem) (triggers info) s of
        Inl e \<Rightarrow> Inl e
      | Inr (ts, s1) \<Rightarrow>
          if ts = [] \<and> should_destroy info then
            collect_loop n vals rest (emit (DestroySemaphore sem) s1)
          else
            (case collect_loop n vals rest s1 of
               Inl e \<Rightarrow> Inl e
             | Inr (kept, s2) \<Rightarrow> Inr ((sem, info\<lparr>triggers := ts\<rparr>) # kept, s2)))"

text \<open>\<^verbatim>\<open>collect()\<close>\<close>

definition collect ::
  "nat \<Rightarrow> (VkSemaphore \<Rightarrow> uint64_t) \<Rightarrow> garbage_collector \<Rightarrow> error + garbage_collector" where
  "collect n vals s =
     (case lock s of
        Inl e \<Rightarrow> Inl e
      | Inr s1 \<Rightarrow>
          (case collect_loop n vals (semaphore_dependencies s1) s1 of
             Inl e \<Rightarrow> Inl e
           | Inr (kept, s2) \<Rightarrow> Inr (unlock (s2\<lparr>semaphore_dependencies := kept\<rparr>))))"

text \<open>
  \<^verbatim>\<open>wait_collect()\<close>: \<open>vals\<close> are the values polled by the first \<open>collect\<close>, \<open>vals'\<close>
  those polled after \<^verbatim>\<open>vkDeviceWaitIdle\<close>.
\<close>

definition wait_collect ::
  "nat \<Rightarrow> (VkSemaphore \<Rightarrow> uint64_t) \<Rightarrow> (VkSemaphore \<Rightarrow> uint64_t) \<Rightarrow> garbage_collector
   \<Rightarrow> error + garbage_collector" where
  "wait_collect n vals vals' s =
     (case collect n vals s of
        Inl e \<Rightarrow> Inl e
      | Inr s1 \<Rightarrow>
          (case lock s1 of
             Inl e \<Rightarrow> Inl e
           | Inr s2 \<Rightarrow>
               if resources s2 \<noteq> [] \<or> semaphore_dependencies s2 \<noteq> [] then
                 collect n vals' (unlock (emit DeviceWaitIdle s2))
               else Inr (unlock s2)))"

subsection \<open>Runs of public operations\<close>

datatype operation =
    Release ptr "closure option"
  | ReleaseSemaphore VkSemaphore
  | Depend ptr ptr
  | DependMany "ptr list" ptr
  | DependTimeline ptr VkSemaphore uint64_t
  | AddTrigger VkSemaphore uint64_t "closure option"
  | Collect "VkSemaphore \<Rightarrow> uint64_t"
  | WaitCollect "VkSemaphore \<Rightarrow> uint64_t" "VkSemaphore \<Rightarrow> uint64_t"

fun step :: "nat \<Rightarrow> operation \<Rightarrow> garbage_collector \<Rightarrow> error + garbage_collector" where
  "step n (Release r f) s = release n r f s"
| "step n (ReleaseSemaphore sem) s = release_semaphore sem s"
| "step n (Depend used user) s = depend used user s"
| "step n (DependMany used user) s = depend_many used user s"
| "step n (DependTimeline used sem v) s = depend_timeline used sem v s"
| "step n (AddTrigger sem v f) s = add_trigger sem v f s"
| "step n (Collect vals) s = collect n vals s"
| "step n (WaitCollect vals vals') s = wait_collect n vals vals' s"

fun run :: "nat \<Rightarrow> operation list \<Rightarrow> garbage_collector \<Rightarrow> error + garbage_collector" where
  "run n [] s = Inr s"
| "run n (x # xs) s = (case step n x s of Inl e \<Rightarrow> Inl e | Inr s' \<Rightarrow> run n xs s')"

subsection \<open>Notions used to state the properties\<close>

text \<open>A poll in which every counter reports the same value.\<close>

definition poll_all :: "uint64_t \<Rightarrow> VkSemaphore \<Rightarrow> uint64_t" where
  "poll_all v sem = v"

text \<open>A record can be deleted: no unresolved dependency, and a cleanup set.\<close>

definition eligible :: "dependency_info \<Rightarrow> bool" where
  "eligible info = (dependency_count info = 0 \<and> cleanup info \<noteq> None)"

text \<open>The events of a cascade, and the events of the loop of \<open>collect\<close>.\<close>

fun cascade_event :: "event \<Rightarrow> bool" where
  "cascade_event (RunCleanup r f) = True"
| "cascade_event (Decrement d c) = True"
| "cascade_event e = False"

fun collect_event :: "event \<Rightarrow> bool" where
  "collect_event MutexLock = False"
| "collect_event MutexUnlock = False"
| "collect_event DeviceWaitIdle = False"
| "collect_event e = True"

text \<open>
  \<open>waits_while_locked held es\<close>: some \<^verbatim>\<open>vkDeviceWaitIdle\<close> of the trace \<open>es\<close> is
  called with the mutex held, \<open>held\<close> being the state of the mutex before \<open>es\<close>.
\<close>

fun waits_while_locked :: "bool \<Rightarrow> event list \<Rightarrow> bool" where
  "waits_while_locked held [] = False"
| "waits_while_locked held (MutexLock # es) = waits_while_locked True es"
| "waits_while_locked held (MutexUnlock # es) = waits_while_locked False es"
| "waits_while_locked held (DeviceWaitIdle # es) = (held \<or> waits_while_locked held es)"
| "waits_while_locked held (e # es) = waits_while_locked held es"

subsection \<open>Accounting of the dependency counts\<close>

text \<open>
  The edges of the records: every entry of a \<open>dependents\<close> list is one decrement that the
  deletion of its record will apply. The records of \<open>P\<close> are left out: they are the ones
  being deleted, whose loop over \<open>dependents\<close> is running further up the call stack.
\<close>

fun edges :: "ptr set \<Rightarrow> (ptr \<times> dependency_info) list \<Rightarrow> ptr multiset" where
  "edges P [] = {#}"
| "edges P ((r, i) # R) = (if r \<in> P then {#} else mset (dependents i)) + edges P R"

text \<open>The decrements that pending triggers will apply: a null dependent applies none.\<close>

definition targets :: "trigger list \<Rightarrow> ptr multiset" where
  "targets ts = image_mset dependent (filter_mset (\<lambda>t. dependent t \<noteq> nullptr) (mset ts))"

fun trigger_targets :: "(VkSemaphore \<times> semaphore_info) list \<Rightarrow> ptr multiset" where
  "trigger_targets [] = {#}"
| "trigger_targets ((sem, i) # S) = targets (triggers i) + trigger_targets S"

text \<open>
  \<open>accounted P G R\<close>: in the resource map \<open>R\<close>, the count of every record is the number of
  decrements still to come for it, from the edges of the records outside \<open>P\<close> and from
  the multiset \<open>G\<close> (pending triggers, and the rest of the loops that are running). A
  resource without a record has none to come, and a record of \<open>P\<close> has count 0. The
  count of \<open>nullptr\<close> can be larger: \<open>depend(nullptr, timeline, value)\<close> increments it
  and pushes a trigger that never decrements.
\<close>

definition balanced :: "ptr set \<Rightarrow> ptr \<Rightarrow> nat \<Rightarrow> dependency_info option \<Rightarrow> bool" where
  "balanced P d k info =
     (case info of
        None \<Rightarrow> k = 0
      | Some i \<Rightarrow>
          (if d = nullptr then k \<le> unat (dependency_count i) else unat (dependency_count i) = k) \<and>
          (d \<in> P \<longrightarrow> dependency_count i = 0))"

definition accounted :: "ptr set \<Rightarrow> ptr multiset \<Rightarrow> (ptr \<times> dependency_info) list \<Rightarrow> bool" where
  "accounted P G R \<longleftrightarrow>
     distinct (map fst R) \<and> (\<forall>d. balanced P d (count (edges P R + G) d) (map_of R d))"

text \<open>No record outside \<open>P\<close> can be deleted.\<close>

definition quiescent :: "ptr set \<Rightarrow> (ptr \<times> dependency_info) list \<Rightarrow> bool" where
  "quiescent P R \<longleftrightarrow> (\<forall>r i. map_of R r = Some i \<longrightarrow> r \<notin> P \<longrightarrow> \<not> eligible i)"

text \<open>The number of records outside \<open>P\<close> with a cleanup: a bound on the depth of a cascade.\<close>

definition released :: "ptr set \<Rightarrow> (ptr \<times> dependency_info) list \<Rightarrow> nat" where
  "released P R = length (filter (\<lambda>(r, i). r \<notin> P \<and> cleanup i \<noteq> None) R)"

text \<open>
  \<open>survives R R'\<close>: every record of \<open>R'\<close> is a record of \<open>R\<close> with the same dependents
  and cleanup, and a count that is not larger.
\<close>

definition survives :: "(ptr \<times> dependency_info) list \<Rightarrow> (ptr \<times> dependency_info) list \<Rightarrow> bool" where
  "survives R R' \<longleftrightarrow>
     (\<forall>r i'. map_of R' r = Some i' \<longrightarrow>
        (\<exists>i. map_of R r = Some i \<and> dependents i' = dependents i \<and> cleanup i' = cleanup i \<and>
             unat (dependency_count i') \<le> unat (dependency_count i)))"

text \<open>The number of times the cleanup of \<open>r\<close> runs in a trace.\<close>

fun is_cleanup_of :: "ptr \<Rightarrow> event \<Rightarrow> bool" where
  "is_cleanup_of r (RunCleanup r' f) = (r' = r)"
| "is_cleanup_of r e = False"

definition cleaned :: "event list \<Rightarrow> ptr \<Rightarrow> nat" where
  "cleaned tr r = length (filter (is_cleanup_of r) tr)"

text \<open>1 when \<open>r\<close> has a record outside \<open>P\<close> with a cleanup set, else 0.\<close>

definition awaiting :: "ptr set \<Rightarrow> (ptr \<times> dependency_info) list \<Rightarrow> ptr \<Rightarrow> nat" where
  "awaiting P R r =
     (case map_of R r of
        None \<Rightarrow> 0
      | Some i \<Rightarrow> if cleanup i \<noteq> None \<and> r \<notin> P then 1 else 0)"

text \<open>No decrement of the trace was applied to a count of 0.\<close>

definition sound_decrements :: "event list \<Rightarrow> bool" where
  "sound_decrements tr \<longleftrightarrow> (\<forall>d c. Decrement d c \<in> set tr \<longrightarrow> c \<noteq> 0)"

text \<open>
  \<open>progress P s s'\<close>: from \<open>s\<close> to \<open>s'\<close>, no record was created and no cleanup was
  set, no decrement was applied to a count of 0, and the cleanups that ran are those of
  the records outside \<open>P\<close> that went away.
\<close>

definition progress :: "ptr set \<Rightarrow> garbage_collector \<Rightarrow> garbage_collector \<Rightarrow> bool" where
  "progress P s s' \<longleftrightarrow>
     released P (resources s') \<le> released P (resources s) \<and>
     survives (resources s) (resources s') \<and>
     (\<exists>tr. trace s' = trace s @ tr \<and> sound_decrements tr \<and>
        (\<forall>r. cleaned tr r + awaiting P (resources s') r = awaiting P (resources s) r))"

text \<open>
  What a cascade started in \<open>s\<close> guarantees of its final state \<open>s'\<close>: the accounting
  holds and no record outside \<open>P\<close> is left that can be deleted.
\<close>

definition cascade_result ::
  "ptr set \<Rightarrow> ptr multiset \<Rightarrow> garbage_collector \<Rightarrow> garbage_collector \<Rightarrow> bool" where
  "cascade_result P G s s' \<longleftrightarrow>
     accounted P G (resources s') \<and> quiescent P (resources s') \<and> progress P s s'"

subsection \<open>Runs, and the states they reach\<close>

text \<open>The dependencies that an operation registers on \<open>d\<close>, and the cleanups it sets.\<close>

fun registers :: "operation \<Rightarrow> ptr \<Rightarrow> nat" where
  "registers (Depend used user) d = (if used = d then 1 else 0)"
| "registers (DependMany used user) d = count_list used d"
| "registers (DependTimeline used sem v) d = (if used = d then 1 else 0)"
| "registers x d = 0"

definition registered :: "operation list \<Rightarrow> ptr \<Rightarrow> nat" where
  "registered xs d = sum_list (map (\<lambda>x. registers x d) xs)"

fun releases :: "operation \<Rightarrow> ptr \<Rightarrow> nat" where
  "releases (Release r (Some f)) d = (if r = d then 1 else 0)"
| "releases x d = 0"

definition release_count :: "operation list \<Rightarrow> ptr \<Rightarrow> nat" where
  "release_count xs d = sum_list (map (\<lambda>x. releases x d) xs)"

fun is_release :: "operation \<Rightarrow> bool" where
  "is_release (Release r (Some f)) = True"
| "is_release x = False"

definition release_ops :: "operation list \<Rightarrow> nat" where
  "release_ops xs = length (filter is_release xs)"

text \<open>
  A run is bounded when it registers fewer than \<open>2 ^ 64\<close> dependencies on each resource:
  every one of them is an 8-byte entry of a vector or of a heap, so a run of the program
  is bounded.
\<close>

definition bounded :: "operation list \<Rightarrow> bool" where
  "bounded xs \<longleftrightarrow> (\<forall>d. registered xs d < 2 ^ 64)"

definition count_of :: "(ptr \<times> dependency_info) list \<Rightarrow> ptr \<Rightarrow> nat" where
  "count_of R d = (case map_of R d of None \<Rightarrow> 0 | Some i \<Rightarrow> unat (dependency_count i))"

definition sorted_heaps :: "(VkSemaphore \<times> semaphore_info) list \<Rightarrow> bool" where
  "sorted_heaps S \<longleftrightarrow> (\<forall>(sem, i) \<in> set S. sorted (map trigger_value (triggers i)))"

text \<open>
  \<open>consistent xs s\<close>: what holds of the state \<open>s\<close> between two operations, after the
  operations \<open>xs\<close>.
\<close>

definition consistent :: "operation list \<Rightarrow> garbage_collector \<Rightarrow> bool" where
  "consistent xs s \<longleftrightarrow>
     \<not> mutex_locked s \<and>
     distinct (map fst (semaphore_dependencies s)) \<and>
     sorted_heaps (semaphore_dependencies s) \<and>
     accounted {} (trigger_targets (semaphore_dependencies s)) (resources s) \<and>
     quiescent {} (resources s) \<and>
     (\<forall>d. count_of (resources s) d \<le> registered xs d) \<and>
     released {} (resources s) \<le> release_ops xs \<and>
     sound_decrements (trace s) \<and>
     (\<forall>r. cleaned (trace s) r + awaiting {} (resources s) r \<le> release_count xs r)"

text \<open>What one \<open>collect\<close> leaves of a heap and of the semaphore map, given the values polled.\<close>

definition remaining :: "uint64_t \<Rightarrow> trigger list \<Rightarrow> trigger list" where
  "remaining v ts = dropWhile (\<lambda>t. trigger_value t \<le> v) ts"

fun collected ::
  "(VkSemaphore \<Rightarrow> uint64_t) \<Rightarrow> (VkSemaphore \<times> semaphore_info) list \<Rightarrow> (VkSemaphore \<times> semaphore_info) list"
  where
  "collected vals [] = []"
| "collected vals ((sem, i) # S) =
     (if remaining (vals sem) (triggers i) = [] \<and> should_destroy i then collected vals S
      else (sem, i\<lparr>triggers := remaining (vals sem) (triggers i)\<rparr>) # collected vals S)"

subsection \<open>The events of a collection\<close>

text \<open>The triggers that one \<open>collect\<close> fires on a heap, and the callbacks of a list of triggers.\<close>

definition ready :: "uint64_t \<Rightarrow> trigger list \<Rightarrow> trigger list" where
  "ready v ts = takeWhile (\<lambda>t. trigger_value t \<le> v) ts"

fun callbacks :: "trigger list \<Rightarrow> closure list" where
  "callbacks [] = []"
| "callbacks (t # ts) = (case callback t of None \<Rightarrow> callbacks ts | Some f \<Rightarrow> f # callbacks ts)"


text \<open>
  A trace without the events of the cascades, and what the loop of \<open>collect\<close> adds to it:
  for each counter in turn the callbacks of the triggers it fires, then the destruction
  of the counter when its heap is empty and it was released.
\<close>

definition visible :: "event list \<Rightarrow> event list" where
  "visible tr = filter (\<lambda>e. \<not> cascade_event e) tr"

fun collect_events :: "(VkSemaphore \<Rightarrow> uint64_t) \<Rightarrow> (VkSemaphore \<times> semaphore_info) list \<Rightarrow> event list"
  where
  "collect_events vals [] = []"
| "collect_events vals ((sem, i) # S) =
     map RunCallback (callbacks (ready (vals sem) (triggers i))) @
     (if remaining (vals sem) (triggers i) = [] \<and> should_destroy i then [DestroySemaphore sem] else []) @
     collect_events vals S"

text \<open>The callbacks that ran in a trace, those still in the heaps, and those that a run added.\<close>

fun callbacks_of :: "event list \<Rightarrow> closure list" where
  "callbacks_of [] = []"
| "callbacks_of (RunCallback f # es) = f # callbacks_of es"
| "callbacks_of (e # es) = callbacks_of es"

fun pending_callbacks :: "(VkSemaphore \<times> semaphore_info) list \<Rightarrow> closure multiset" where
  "pending_callbacks [] = {#}"
| "pending_callbacks ((sem, i) # S) = mset (callbacks (triggers i)) + pending_callbacks S"

fun added_callbacks :: "operation list \<Rightarrow> closure multiset" where
  "added_callbacks [] = {#}"
| "added_callbacks (AddTrigger sem v (Some f) # xs) = add_mset f (added_callbacks xs)"
| "added_callbacks (x # xs) = added_callbacks xs"

text \<open>The callbacks that have run in the trace of a state and those still in its heaps.\<close>

definition tally :: "garbage_collector \<Rightarrow> closure multiset" where
  "tally s = mset (callbacks_of (trace s)) + pending_callbacks (semaphore_dependencies s)"

text \<open>The edges of the records: \<open>(user, used)\<close> when \<open>used\<close> is a dependent of the record of \<open>user\<close>.\<close>

definition dependency_graph :: "(ptr \<times> dependency_info) list \<Rightarrow> (ptr \<times> ptr) set" where
  "dependency_graph R = {(user, used). \<exists>i. map_of R user = Some i \<and> used \<in> set (dependents i)}"

subsection \<open>Replaying the events of a trace\<close>

text \<open>The cleanup set for \<open>q\<close> in the resource map \<open>R\<close>: \<open>None\<close> without a record.\<close>

definition cleanup_of :: "(ptr \<times> dependency_info) list \<Rightarrow> ptr \<Rightarrow> closure option" where
  "cleanup_of R q = (case map_of R q of None \<Rightarrow> None | Some i \<Rightarrow> cleanup i)"

text \<open>
  The cleanups that are set when the operation \<open>x\<close> starts to check for deletion: those
  of the records, and the one that a \<open>release\<close> has just written.
\<close>

fun cleanup_at :: "operation \<Rightarrow> (ptr \<times> dependency_info) list \<Rightarrow> ptr \<Rightarrow> closure option" where
  "cleanup_at (Release r g) R = (cleanup_of R)(r := g)"
| "cleanup_at x R = cleanup_of R"

text \<open>
  \<open>timely c k tr\<close>: the events of \<open>tr\<close> replayed from the counts \<open>c\<close> and the cleanups
  \<open>k\<close>. Every decrement finds the count that the replay has reached, which is above 0,
  and takes one from it. Every cleanup that runs is the one set for its resource, runs when
  the count of the resource is 0, and is not set any more afterwards.
\<close>

fun timely :: "(ptr \<Rightarrow> nat) \<Rightarrow> (ptr \<Rightarrow> closure option) \<Rightarrow> event list \<Rightarrow> bool" where
  "timely c k [] = True"
| "timely c k (RunCleanup q f # tr) = (c q = 0 \<and> k q = Some f \<and> timely c (k(q := None)) tr)"
| "timely c k (Decrement d x # tr) = (unat x = c d \<and> 0 < c d \<and> timely (c(d := c d - 1)) k tr)"
| "timely c k (e # tr) = timely c k tr"

text \<open>The counts and the cleanups that the replay of a trace ends with.\<close>

fun counts_after :: "(ptr \<Rightarrow> nat) \<Rightarrow> event list \<Rightarrow> ptr \<Rightarrow> nat" where
  "counts_after c [] = c"
| "counts_after c (Decrement d x # tr) = counts_after (c(d := c d - 1)) tr"
| "counts_after c (e # tr) = counts_after c tr"

fun cleanups_after :: "(ptr \<Rightarrow> closure option) \<Rightarrow> event list \<Rightarrow> ptr \<Rightarrow> closure option" where
  "cleanups_after k [] = k"
| "cleanups_after k (RunCleanup q f # tr) = cleanups_after (k(q := None)) tr"
| "cleanups_after k (e # tr) = cleanups_after k tr"



text \<open>
  \<open>replays R tr R'\<close>: the trace \<open>tr\<close> is timely from the records \<open>R\<close> and its replay ends
  with the counts and cleanups of the records \<open>R'\<close>; no record of \<open>R'\<close> is new, and the
  resources cleaned up in \<open>tr\<close> have no record in \<open>R'\<close>.
\<close>

definition replays ::
  "(ptr \<times> dependency_info) list \<Rightarrow> event list \<Rightarrow> (ptr \<times> dependency_info) list \<Rightarrow> bool" where
  "replays R tr R' \<longleftrightarrow>
     timely (count_of R) (cleanup_of R) tr \<and>
     counts_after (count_of R) tr = count_of R' \<and>
     cleanups_after (cleanup_of R) tr = cleanup_of R' \<and>
     (\<forall>q. map_of R q = None \<longrightarrow> map_of R' q = None) \<and>
     (\<forall>q f. RunCleanup q f \<in> set tr \<longrightarrow> map_of R' q = None)"

subsection \<open>The triggers that are due\<close>




section \<open>Basic facts\<close>


lemma check_delete_SucE:
  assumes "check_delete (Suc n) r s = Inr s'"
  obtains (keep) info where "map_of (resources s) r = Some info" "\<not> eligible info" "s' = s"
  | (del) info f s1 where "map_of (resources s) r = Some info"
      "dependency_count info = 0" "cleanup info = Some f"
      "check_delete_dependents n (dependents info) (emit (RunCleanup r f) s) = Inr s1"
      "s' = s1\<lparr>resources := AList.delete r (resources s1)\<rparr>"
  using assms by (auto simp: eligible_def split: option.splits sum.splits if_splits)

lemma check_delete_dependents_ConsE:
  assumes "check_delete_dependents n (d # ds) s = Inr s'"
  obtains s1 where "check_delete n d (decrement d s) = Inr s1"
     "check_delete_dependents n ds s1 = Inr s'"
  using assms by (auto split: sum.splits)

lemma keys_modify_resource:
  "fst ` set (resources (modify_resource r f s)) = insert r (fst ` set (resources s))"
  by (simp add: modify_resource_def AList.dom_update)

lemma map_of_modify_resource:
  "map_of (resources (modify_resource r f s)) = (map_of (resources s))(r \<mapsto> f (resources_at s r))"
  by (simp add: modify_resource_def AList.update_conv')

subsection \<open>What a cascade and a collection leave alone\<close>

lemma cascade_frame:
  "check_delete n r s = Inr s' \<Longrightarrow>
     semaphore_dependencies s' = semaphore_dependencies s \<and> mutex_locked s' = mutex_locked s \<and>
     (\<exists>tr. trace s' = trace s @ tr \<and> (\<forall>e \<in> set tr. cascade_event e))"
  "check_delete_dependents n ds s = Inr s' \<Longrightarrow>
     semaphore_dependencies s' = semaphore_dependencies s \<and> mutex_locked s' = mutex_locked s \<and>
     (\<exists>tr. trace s' = trace s @ tr \<and> (\<forall>e \<in> set tr. cascade_event e))"
proof (induction n r s and n ds s arbitrary: s' and s' rule: check_delete_check_delete_dependents.induct)
  case (1 r s)
  then show ?case by simp
next
  case (2 n r s)
  from 2(2) show ?case
  proof (cases rule: check_delete_SucE)
    case (keep info)
    then show ?thesis by simp
  next
    case (del info f s1)
    from 2(1)[OF del(1,2,3,4)] del(5) show ?thesis by (auto simp: emit_def)
  qed
next
  case (3 n s)
  then show ?case by simp
next
  case (4 n d ds s)
  from 4(3) obtain s1 where s1: "check_delete n d (decrement d s) = Inr s1"
    and s': "check_delete_dependents n ds s1 = Inr s'"
    by (rule check_delete_dependents_ConsE)
  from 4(1)[OF s1] 4(2)[OF s1 s'] show ?case
    by (auto simp: decrement_def emit_def modify_resource_def)
qed

lemma cascade_event_collect_event: "cascade_event e \<Longrightarrow> collect_event e"
  by (cases e) auto

lemma fire_frame:
  assumes "fire n t s = Inr s'"
  shows "semaphore_dependencies s' = semaphore_dependencies s \<and> mutex_locked s' = mutex_locked s \<and>
     (\<exists>tr. trace s' = trace s @ tr \<and> (\<forall>e \<in> set tr. collect_event e))"
proof -
  define s1 where "s1 = (case callback t of None \<Rightarrow> s | Some f \<Rightarrow> emit (RunCallback f) s)"
  have s1: "semaphore_dependencies s1 = semaphore_dependencies s \<and> mutex_locked s1 = mutex_locked s \<and>
     (\<exists>tr. trace s1 = trace s @ tr \<and> (\<forall>e \<in> set tr. collect_event e))"
    by (auto simp: s1_def emit_def split: option.splits)
  show ?thesis
  proof (cases "dependent t = nullptr")
    case True
    with assms s1 show ?thesis by (simp add: fire_def s1_def)
  next
    case False
    with assms have "check_delete n (dependent t) (decrement (dependent t) s1) = Inr s'"
      by (simp add: fire_def s1_def Let_def)
    from cascade_frame(1)[OF this] s1 cascade_event_collect_event show ?thesis
      by (auto simp: decrement_def emit_def modify_resource_def)
  qed
qed

lemma fire_triggers_frame:
  "fire_triggers n v ts s = Inr (ts', s') \<Longrightarrow>
    semaphore_dependencies s' = semaphore_dependencies s \<and> mutex_locked s' = mutex_locked s \<and>
     (\<exists>tr. trace s' = trace s @ tr \<and> (\<forall>e \<in> set tr. collect_event e))"
proof (induction ts arbitrary: s)
  case Nil
  then show ?case by simp
next
  case (Cons t ts)
  show ?case
  proof (cases "trigger_value t \<le> v")
    case False
    with Cons.prems show ?thesis by simp
  next
    case True
    with Cons.prems obtain s1 where s1: "fire n t s = Inr s1"
      and r: "fire_triggers n v ts s1 = Inr (ts', s')"
      by (auto split: sum.splits)
    from fire_frame[OF s1] Cons.IH[OF r] show ?thesis by auto
  qed
qed

lemma collect_loop_frame:
  "collect_loop n vals S s = Inr (kept, s') \<Longrightarrow>
    semaphore_dependencies s' = semaphore_dependencies s \<and> mutex_locked s' = mutex_locked s \<and>
     (\<exists>tr. trace s' = trace s @ tr \<and> (\<forall>e \<in> set tr. collect_event e))"
proof (induction S arbitrary: s kept)
  case Nil
  then show ?case by simp
next
  case (Cons x S)
  obtain sem info where x: "x = (sem, info)" by (cases x)
  from Cons.prems x obtain ts s1 where f: "fire_triggers n (vals sem) (triggers info) s = Inr (ts, s1)"
    by (auto split: sum.splits)
  note f1 = fire_triggers_frame[OF f]
  show ?case
  proof (cases "ts = [] \<and> should_destroy info")
    case True
    with Cons.prems x f have "collect_loop n vals S (emit (DestroySemaphore sem) s1) = Inr (kept, s')"
      by simp
    from Cons.IH[OF this] f1 show ?thesis by (auto simp: emit_def)
  next
    case False
    with Cons.prems x f obtain kept' where "collect_loop n vals S s1 = Inr (kept', s')"
      by (auto split: sum.splits)
    from Cons.IH[OF this] f1 show ?thesis by auto
  qed
qed

lemma collect_trace:
  assumes "collect n vals s = Inr s'"
  shows "\<not> mutex_locked s \<and> \<not> mutex_locked s' \<and>
     (\<exists>tr. trace s' = trace s @ MutexLock # tr @ [MutexUnlock] \<and> (\<forall>e \<in> set tr. collect_event e))"
proof -
  from assms have l: "\<not> mutex_locked s" by (auto simp: collect_def lock_def split: if_splits)
  define s1 where "s1 = emit MutexLock (s\<lparr>mutex_locked := True\<rparr>)"
  from assms l obtain kept s2 where
    c: "collect_loop n vals (semaphore_dependencies s1) s1 = Inr (kept, s2)"
    and s': "s' = unlock (s2\<lparr>semaphore_dependencies := kept\<rparr>)"
    by (auto simp: collect_def lock_def s1_def split: sum.splits)
  from collect_loop_frame[OF c] s' l show ?thesis
    by (auto simp: unlock_def emit_def s1_def)
qed

section \<open>The chain A, B, C\<close>

text \<open>
  Claim C3. Let \<open>A\<close>, \<open>B\<close>, \<open>C\<close> be three different resources without a record, and
  at least three stack frames. After \<open>depend(A, B)\<close>, \<open>depend(B, C)\<close> and the release of
  \<open>A\<close> and of \<open>B\<close>, nothing has been cleaned up; the release of \<open>C\<close> then runs, in this
  order and inside that one call: the cleanup of \<open>C\<close>, the decrement of the count of
  \<open>B\<close> from 1 to 0, the cleanup of \<open>B\<close>, the decrement of the count of \<open>A\<close> from 1 to 0,
  the cleanup of \<open>A\<close>. Each cleanup runs once, and no record of the three is left.
\<close>

theorem chain_cascade:
  assumes "A \<noteq> B" "B \<noteq> C" "A \<noteq> C"
    and "\<not> mutex_locked s"
    and "map_of (resources s) A = None"
    and "map_of (resources s) B = None"
    and "map_of (resources s) C = None"
  shows "\<exists>s'. run (Suc (Suc (Suc n)))
            [Depend A B, Depend B C, Release A (Some fa), Release B (Some fb), Release C (Some fc)] s
          = Inr s' \<and>
     trace s' = trace s @
       [MutexLock, MutexUnlock, MutexLock, MutexUnlock, MutexLock, MutexUnlock, MutexLock, MutexUnlock,
        MutexLock, RunCleanup C fc, Decrement B 1, RunCleanup B fb, Decrement A 1, RunCleanup A fa,
        MutexUnlock] \<and>
     map_of (resources s') = map_of (resources s)"
proof -
  have "(map_of (resources s))(A := None, B := None, C := None) = map_of (resources s)"
    using assms by (auto simp: fun_eq_iff)
  with assms show ?thesis
    by (simp add: depend_def depend_many_def increment_def release_def lock_def unlock_def emit_def
        modify_resource_def resources_at_def decrement_def AList.update_conv' AList.delete_conv'
        default_dependency_info_def fun_upd_twist)
qed

theorem chain_cascade_witness:
  "\<exists>s'. run 3 [Depend 1 2, Depend 2 3, Release 1 (Some 11), Release 2 (Some 12), Release 3 (Some 13)] init
          = Inr s' \<and>
     trace s' =
       [MutexLock, MutexUnlock, MutexLock, MutexUnlock, MutexLock, MutexUnlock, MutexLock, MutexUnlock,
        MutexLock, RunCleanup 3 13, Decrement 2 1, RunCleanup 2 12, Decrement 1 1, RunCleanup 1 11,
        MutexUnlock] \<and>
     map_of (resources s') = Map.empty"
  using chain_cascade [of 1 2 3 init 0 11 12 13]
  by (simp add: init_def numeral_3_eq_3)

section \<open>The lock of \<open>wait_collect\<close>\<close>

text \<open>
  Claim C9, as the code has it. \<open>wait_collect\<close> runs \<open>collect\<close>, takes the mutex, and when
  a record remains it calls \<^verbatim>\<open>vkDeviceWaitIdle\<close> with the mutex held; it releases the
  mutex after the wait has returned, and the second \<open>collect\<close> takes it again. When no
  record remains, there is no wait.
\<close>

theorem wait_collect_lock:
  assumes "wait_collect n vals vals' s = Inr s'"
  shows "\<exists>s1 tr. collect n vals s = Inr s1 \<and> (\<forall>e \<in> set tr. collect_event e) \<and>
     (if resources s1 \<noteq> [] \<or> semaphore_dependencies s1 \<noteq> []
      then trace s' = trace s1 @ [MutexLock, DeviceWaitIdle, MutexUnlock] @ MutexLock # tr @ [MutexUnlock]
        \<and> waits_while_locked False (drop (length (trace s1)) (trace s'))
      else trace s' = trace s1 @ [MutexLock, MutexUnlock])"
proof -
  from assms obtain s1 where s1: "collect n vals s = Inr s1"
    by (auto simp: wait_collect_def split: sum.splits)
  from collect_trace[OF s1] have l: "\<not> mutex_locked s1" by simp
  show ?thesis
  proof (cases "resources s1 \<noteq> [] \<or> semaphore_dependencies s1 \<noteq> []")
    case False
    with assms s1 l show ?thesis
      by (auto simp: wait_collect_def lock_def unlock_def emit_def intro!: exI[of _ "[]"])
  next
    case True
    with assms s1 l have
      "collect n vals' (unlock (emit DeviceWaitIdle (emit MutexLock (s1\<lparr>mutex_locked := True\<rparr>)))) = Inr s'"
      by (auto simp: wait_collect_def lock_def emit_def)
    from collect_trace[OF this] obtain tr where
      "trace s' = trace s1 @ [MutexLock, DeviceWaitIdle, MutexUnlock] @ MutexLock # tr @ [MutexUnlock]"
      "\<forall>e \<in> set tr. collect_event e"
      by (auto simp: unlock_def emit_def)
    with True s1 show ?thesis by auto
  qed
qed

theorem wait_collect_lock_witness:
  "wait_collect 0 (poll_all 3) (poll_all 5)
     \<lparr>resources = [],
      semaphore_dependencies = [(7, \<lparr>triggers = [Trigger 5 nullptr (Some 1)], should_destroy = False\<rparr>)],
      mutex_locked = False, trace = []\<rparr>
   = Inr \<lparr>resources = [],
      semaphore_dependencies = [(7, \<lparr>triggers = [], should_destroy = False\<rparr>)],
      mutex_locked = False,
      trace = [MutexLock, MutexUnlock, MutexLock, DeviceWaitIdle, MutexUnlock,
               MutexLock, RunCallback 1, MutexUnlock]\<rparr> \<and>
   (\<exists>s1 tr. collect 0 (poll_all 3)
       \<lparr>resources = [],
        semaphore_dependencies = [(7, \<lparr>triggers = [Trigger 5 nullptr (Some 1)], should_destroy = False\<rparr>)],
        mutex_locked = False, trace = []\<rparr> = Inr s1 \<and>
      (\<forall>e \<in> set tr. collect_event e) \<and>
      [MutexLock, MutexUnlock, MutexLock, DeviceWaitIdle, MutexUnlock, MutexLock, RunCallback 1, MutexUnlock]
        = trace s1 @ [MutexLock, DeviceWaitIdle, MutexUnlock] @ MutexLock # tr @ [MutexUnlock])"
proof -
  have h: "wait_collect 0 (poll_all 3) (poll_all 5)
     \<lparr>resources = [],
      semaphore_dependencies = [(7, \<lparr>triggers = [Trigger 5 nullptr (Some 1)], should_destroy = False\<rparr>)],
      mutex_locked = False, trace = []\<rparr>
   = Inr \<lparr>resources = [],
      semaphore_dependencies = [(7, \<lparr>triggers = [], should_destroy = False\<rparr>)],
      mutex_locked = False,
      trace = [MutexLock, MutexUnlock, MutexLock, DeviceWaitIdle, MutexUnlock,
               MutexLock, RunCallback 1, MutexUnlock]\<rparr>"
    by (simp add: wait_collect_def collect_def lock_def unlock_def emit_def poll_all_def fire_def)
  from wait_collect_lock [OF h] h show ?thesis
    by (auto simp: collect_def lock_def unlock_def emit_def poll_all_def split: if_splits)
qed



text \<open>
  The claim as the specification states it fails: with a trigger pending, the wait is
  called between the lock and the unlock.
\<close>

theorem wait_collect_lock_counterexample:
  "map_sum id (\<lambda>s. (trace s, waits_while_locked False (trace s)))
     (run 0 [AddTrigger 7 5 (Some 1), WaitCollect (poll_all 3) (poll_all 5)] init) =
   Inr ([MutexLock, MutexUnlock, MutexLock, MutexUnlock, MutexLock, DeviceWaitIdle, MutexUnlock,
         MutexLock, RunCallback 1, MutexUnlock], True)"
  by (simp add: init_def add_trigger_def wait_collect_def collect_def lock_def unlock_def emit_def
      modify_semaphore_def semaphore_at_def default_semaphore_info_def push_def poll_all_def
      fire_def nullptr_def)

section \<open>The lookup of \<open>check_delete\<close>\<close>

lemma check_delete_no_invalid:
  "r \<in> fst ` set (resources s) \<Longrightarrow> check_delete n r s \<noteq> Inl InvalidIterator"
  "check_delete_dependents n ds s \<noteq> Inl InvalidIterator"
proof (induction n r s and n ds s rule: check_delete_check_delete_dependents.induct)
  case (1 r s)
  then show ?case by simp
next
  case (2 n r s)
  then show ?case
    by (auto simp: map_of_eq_None_iff split: option.splits sum.splits)
next
  case (3 n s)
  then show ?case by simp
next
  case (4 n d ds s)
  then show ?case
    by (auto simp: decrement_def emit_def keys_modify_resource split: sum.splits)
qed

lemma decrement_keys: "d \<in> fst ` set (resources (decrement d s))"
  by (simp add: decrement_def emit_def keys_modify_resource)

lemma fire_no_invalid: "fire n t s \<noteq> Inl InvalidIterator"
  by (simp add: fire_def Let_def check_delete_no_invalid(1) decrement_keys)

lemma fire_triggers_no_invalid: "fire_triggers n v ts s \<noteq> Inl InvalidIterator"
  by (induction ts arbitrary: s) (auto simp: fire_no_invalid split: sum.splits)

lemma collect_loop_no_invalid: "collect_loop n vals S s \<noteq> Inl InvalidIterator"
  by (induction S arbitrary: s) (auto simp: fire_triggers_no_invalid split: sum.splits if_splits)

lemma collect_no_invalid: "collect n vals s \<noteq> Inl InvalidIterator"
  by (auto simp: collect_def lock_def collect_loop_no_invalid split: sum.splits)

lemma release_no_invalid: "release n r f s \<noteq> Inl InvalidIterator"
  by (auto simp: release_def lock_def check_delete_no_invalid(1) keys_modify_resource split: sum.splits)

lemma step_no_invalid: "step n x s \<noteq> Inl InvalidIterator"
  by (cases x) (auto simp: release_no_invalid collect_no_invalid release_semaphore_def depend_def depend_many_def
       depend_timeline_def add_trigger_def wait_collect_def lock_def split: sum.splits)

lemma run_no_invalid: "run n xs s \<noteq> Inl InvalidIterator"
  by (induction xs arbitrary: s) (auto simp: step_no_invalid split: sum.splits)

text \<open>
  Claim C10. No run of public operations, from any state and with any number of stack
  frames, reaches the dereference of \<^verbatim>\<open>end()\<close> in \<open>check_delete\<close>: \<open>release\<close> calls it
  right after \<^verbatim>\<open>resources[resource].cleanup = ...\<close>, \<open>collect\<close> and the cascade right after
  \<^verbatim>\<open>resources[dep].dependency_count--\<close>, and both writes create the record when it is absent.
\<close>

theorem check_delete_lookup_succeeds:
  "run n xs s \<noteq> Inl InvalidIterator \<and>
   check_delete n r (modify_resource r g s) \<noteq> Inl InvalidIterator \<and>
   check_delete n d (decrement d s) \<noteq> Inl InvalidIterator \<and>
   check_delete_dependents n ds s \<noteq> Inl InvalidIterator"
  by (simp add: run_no_invalid check_delete_no_invalid decrement_keys keys_modify_resource)

subsection \<open>The accounting under the steps of a cascade\<close>

lemma edges_update_same:
  "map_of R r = Some i \<Longrightarrow> dependents i' = dependents i \<Longrightarrow> edges P (AList.update r i' R) = edges P R"
  by (induction R) (auto split: if_splits)

lemma edges_update_new:
  "map_of R r = None \<Longrightarrow>
   edges P (AList.update r i' R) = edges P R + (if r \<in> P then {#} else mset (dependents i'))"
  by (induction R) (auto split: if_splits)

lemma edges_insert_absent:
  "map_of R r = None \<Longrightarrow> edges (insert r P) R = edges P R"
  by (induction R) (auto split: if_splits)

lemma edges_enter:
  "distinct (map fst R) \<Longrightarrow> map_of R r = Some i \<Longrightarrow> r \<notin> P \<Longrightarrow>
   edges (insert r P) R + mset (dependents i) = edges P R"
proof (induction R)
  case Nil
  then show ?case by simp
next
  case (Cons x R)
  obtain k v where x: "x = (k, v)" by (cases x)
  show ?case
  proof (cases "k = r")
    case True
    with Cons.prems x have "map_of R r = None"
      by (auto simp: map_of_eq_None_iff)
    with Cons.prems x True show ?thesis
      by (simp add: edges_insert_absent)
  next
    case False
    with Cons x show ?thesis by auto
  qed
qed

lemma edges_delete:
  "r \<in> P \<Longrightarrow> edges P (AList.delete r R) = edges P R"
  by (induction R) (auto split: if_splits)

lemma edges_append:
  "distinct (map fst R) \<Longrightarrow> map_of R r = Some i \<Longrightarrow> r \<notin> P \<Longrightarrow>
   edges P (AList.update r (i\<lparr>dependents := dependents i @ us\<rparr>) R) = edges P R + mset us"
  by (induction R) (auto split: if_splits)

lemma accountedD:
  "accounted P G R \<Longrightarrow> balanced P d (count (edges P R + G) d) (map_of R d)"
  "accounted P G R \<Longrightarrow> distinct (map fst R)"
  by (simp_all add: accounted_def)

lemma accounted_decrement:
  assumes "accounted P (add_mset d G) R"
  obtains i where "map_of R d = Some i" "dependency_count i \<noteq> 0" "d \<notin> P"
    "accounted P G (AList.update d (i\<lparr>dependency_count := dependency_count i - 1\<rparr>) R)"
proof -
  note all = accountedD(1)[OF assms]
  from all[of d] obtain i where i: "map_of R d = Some i"
    by (cases "map_of R d") (auto simp: balanced_def)
  from all[of d] i have pos: "0 < unat (dependency_count i)"
    by (auto simp: balanced_def split: if_splits)
  then have nz: "dependency_count i \<noteq> 0" by (auto simp: unat_gt_0)
  from all[of d] i nz have notP: "d \<notin> P" by (auto simp: balanced_def)
  let ?i' = "i\<lparr>dependency_count := dependency_count i - 1\<rparr>"
  let ?R' = "AList.update d ?i' R"
  have e: "edges P ?R' = edges P R"
    using i by (simp add: edges_update_same)
  have u: "unat (dependency_count i - 1) = unat (dependency_count i) - 1"
    using nz by (simp add: unat_minus_one)
  have m: "map_of ?R' = (map_of R)(d \<mapsto> ?i')"
    by (rule AList.update_conv')
  have "accounted P G ?R'"
    unfolding accounted_def e m
  proof (intro conjI allI)
    show "distinct (map fst ?R')" using accountedD(2)[OF assms] by (rule AList.distinct_update)
  next
    fix x
    show "balanced P x (count (edges P R + G) x) (((map_of R)(d \<mapsto> ?i')) x)"
    proof (cases "x = d")
      case True
      with all[of d] i u pos notP show ?thesis
        by (auto simp: balanced_def split: if_splits)
    next
      case False
      with all[of x] show ?thesis
        by (auto simp: balanced_def split: option.splits)
    qed
  qed
  with i nz notP show ?thesis by (rule that)
qed

lemma accounted_enter:
  assumes "accounted P G R" "map_of R d = Some i" "dependency_count i = 0" "d \<notin> P"
  shows "accounted (insert d P) (G + mset (dependents i)) R"
proof -
  note all = accountedD(1)[OF assms(1)]
  have e: "edges (insert d P) R + (G + mset (dependents i)) = edges P R + G"
    using edges_enter[OF accountedD(2)[OF assms(1)] assms(2,4)] by (simp add: ac_simps)
  show ?thesis
    unfolding accounted_def e
  proof (intro conjI allI)
    show "distinct (map fst R)" by (rule accountedD(2)[OF assms(1)])
  next
    fix x
    from all[of x] assms(2,3) show "balanced (insert d P) x (count (edges P R + G) x) (map_of R x)"
      by (auto simp: balanced_def split: option.splits)
  qed
qed

lemma accounted_exit:
  assumes "accounted (insert d P) G R" "d \<notin> P"
  shows "accounted P G (AList.delete d R)"
proof -
  note all = accountedD(1)[OF assms(1)]
  have "edges P (AList.delete d R) = edges (insert d P) (AList.delete d R)"
    by (simp add: edges_insert_absent AList.delete_conv')
  also have "\<dots> = edges (insert d P) R" by (simp add: edges_delete)
  finally have e: "edges P (AList.delete d R) = edges (insert d P) R" .
  show ?thesis
    unfolding accounted_def e AList.delete_conv'
  proof (intro conjI allI)
    show "distinct (map fst (AList.delete d R))"
      using accountedD(2)[OF assms(1)] by (rule AList.distinct_delete)
  next
    fix x
    from all[of x] show "balanced P x (count (edges (insert d P) R + G) x) (((map_of R)(d := None)) x)"
      by (auto simp: balanced_def split: option.splits if_splits)
  qed
qed

lemma quiescent_update:
  "quiescent P R \<Longrightarrow> quiescent (insert d P) (AList.update d i R)"
  by (auto simp: quiescent_def AList.update_conv' split: if_splits)

lemma quiescent_delete:
  "quiescent (insert d P) R \<Longrightarrow> quiescent P (AList.delete d R)"
  by (auto simp: quiescent_def AList.delete_conv' split: if_splits)

lemma quiescent_keep:
  "quiescent (insert d P) R \<Longrightarrow> map_of R d = Some i \<Longrightarrow> \<not> eligible i \<Longrightarrow> quiescent P R"
  unfolding quiescent_def by (metis insert_iff option.inject)

lemma released_update_same:
  "map_of R r = Some i \<Longrightarrow> cleanup i' = cleanup i \<Longrightarrow> released P (AList.update r i' R) = released P R"
  unfolding released_def by (induction R) (auto split: if_splits)

lemma released_insert_le: "released (insert d P) R \<le> released P R"
  unfolding released_def by (induction R) auto

lemma released_enter:
  "map_of R d = Some i \<Longrightarrow> cleanup i \<noteq> None \<Longrightarrow> d \<notin> P \<Longrightarrow> released (insert d P) R < released P R"
proof (induction R)
  case Nil
  then show ?case by simp
next
  case (Cons x R)
  obtain k v where x: "x = (k, v)" by (cases x)
  show ?case
  proof (cases "k = d")
    case True
    with Cons.prems x have "released P (x # R) = Suc (released P R)"
      "released (insert d P) (x # R) = released (insert d P) R"
      by (auto simp: released_def)
    with released_insert_le[of d P R] show ?thesis by simp
  next
    case False
    with Cons x show ?thesis by (auto simp: released_def)
  qed
qed

lemma released_delete: "released P (AList.delete d R) = released (insert d P) R"
  unfolding released_def by (induction R) auto

lemma survives_refl: "survives R R"
  by (simp add: survives_def)

lemma survives_trans:
  assumes "survives R R'" "survives R' R''"
  shows "survives R R''"
  unfolding survives_def
proof (intro allI impI)
  fix r i''
  assume "map_of R'' r = Some i''"
  with assms(2) obtain i' where i': "map_of R' r = Some i'" "dependents i'' = dependents i'"
    "cleanup i'' = cleanup i'" "unat (dependency_count i'') \<le> unat (dependency_count i')"
    unfolding survives_def by blast
  with assms(1) obtain i where "map_of R r = Some i" "dependents i' = dependents i"
    "cleanup i' = cleanup i" "unat (dependency_count i') \<le> unat (dependency_count i)"
    unfolding survives_def by blast
  with i' show "\<exists>i. map_of R r = Some i \<and> dependents i'' = dependents i \<and> cleanup i'' = cleanup i \<and>
             unat (dependency_count i'') \<le> unat (dependency_count i)"
    by auto
qed

lemma survives_delete: "survives R (AList.delete d R)"
  by (auto simp: survives_def AList.delete_conv' split: if_splits)

lemma survives_decrement:
  "map_of R d = Some i \<Longrightarrow> dependency_count i \<noteq> 0 \<Longrightarrow>
   survives R (AList.update d (i\<lparr>dependency_count := dependency_count i - 1\<rparr>) R)"
  by (auto simp: survives_def AList.update_conv' unat_minus_one split: if_splits)

lemma sound_decrements_simps:
  "sound_decrements []"
  "sound_decrements (tr @ tr') \<longleftrightarrow> sound_decrements tr \<and> sound_decrements tr'"
  "sound_decrements (Decrement d c # tr) \<longleftrightarrow> c \<noteq> 0 \<and> sound_decrements tr"
  "sound_decrements (RunCleanup r f # tr) \<longleftrightarrow> sound_decrements tr"
  by (auto simp: sound_decrements_def)

lemma cleaned_simps:
  "cleaned [] r = 0"
  "cleaned (tr @ tr') r = cleaned tr r + cleaned tr' r"
  "cleaned (Decrement d c # tr) r = cleaned tr r"
  "cleaned (RunCleanup r' f # tr) r = (if r' = r then Suc (cleaned tr r) else cleaned tr r)"
  by (auto simp: cleaned_def)

lemma awaiting_update_same:
  "map_of R d = Some i \<Longrightarrow> cleanup i' = cleanup i \<Longrightarrow> awaiting P (AList.update d i' R) r = awaiting P R r"
  by (auto simp: awaiting_def AList.update_conv')

lemma awaiting_delete:
  "awaiting P (AList.delete d R) r = awaiting (insert d P) R r"
  by (auto simp: awaiting_def AList.delete_conv' split: option.splits)

lemma awaiting_enter:
  "map_of R d = Some i \<Longrightarrow> cleanup i \<noteq> None \<Longrightarrow> d \<notin> P \<Longrightarrow>
   awaiting P R r = (if r = d then 1 else awaiting (insert d P) R r)"
  by (auto simp: awaiting_def split: option.splits)

lemma awaiting_inside: "awaiting (insert d P) R d = 0"
  by (auto simp: awaiting_def split: option.splits)

lemma resources_decrement:
  "map_of (resources s) d = Some i \<Longrightarrow>
   decrement d s = emit (Decrement d (dependency_count i))
     (s\<lparr>resources := AList.update d (i\<lparr>dependency_count := dependency_count i - 1\<rparr>) (resources s)\<rparr>)"
  by (simp add: decrement_def modify_resource_def resources_at_def)

lemma cascade_core:
  "accounted P G (resources s) \<Longrightarrow> map_of (resources s) d \<noteq> None \<Longrightarrow> d \<notin> P \<Longrightarrow>
   quiescent (insert d P) (resources s) \<Longrightarrow> released P (resources s) < n \<Longrightarrow>
   \<exists>s'. check_delete n d s = Inr s' \<and> cascade_result P G s s'"
  "accounted P (G + mset ds) (resources s) \<Longrightarrow> quiescent P (resources s) \<Longrightarrow>
   released P (resources s) < n \<Longrightarrow>
   \<exists>s'. check_delete_dependents n ds s = Inr s' \<and> cascade_result P G s s'"
proof (induction n d s and n ds s arbitrary: P G and P G rule: check_delete_check_delete_dependents.induct)
  case (1 r s)
  then show ?case by simp
next
  case (2 n r s)
  from 2(3) obtain i where i: "map_of (resources s) r = Some i" by auto
  show ?case
  proof (cases "eligible i")
    case False
    with i have "check_delete (Suc n) r s = Inr s"
      by (auto simp: eligible_def split: option.splits)
    moreover have "quiescent P (resources s)"
      using 2(5) i False by (rule quiescent_keep)
    with 2(2) have "cascade_result P G s s"
      by (auto simp: cascade_result_def progress_def survives_refl sound_decrements_simps cleaned_simps)
    ultimately show ?thesis by simp
  next
    case True
    then obtain f where z: "dependency_count i = 0" and f: "cleanup i = Some f"
      by (auto simp: eligible_def)
    let ?s0 = "emit (RunCleanup r f) s"
    have r0: "resources ?s0 = resources s" by (simp add: emit_def)
    have a0: "accounted (insert r P) (G + mset (dependents i)) (resources ?s0)"
      unfolding r0 using 2(2) i z 2(4) by (rule accounted_enter)
    have q0: "quiescent (insert r P) (resources ?s0)"
      unfolding r0 using 2(5) .
    have "released (insert r P) (resources s) < released P (resources s)"
      using i f 2(4) by (intro released_enter) auto
    with 2(6) have n0: "released (insert r P) (resources ?s0) < n"
      unfolding r0 by simp
    from 2(1)[OF i z f a0 q0 n0] obtain s1 where
      s1: "check_delete_dependents n (dependents i) ?s0 = Inr s1"
      and c1: "cascade_result (insert r P) G ?s0 s1"
      by blast
    let ?s' = "s1\<lparr>resources := AList.delete r (resources s1)\<rparr>"
    from i z f s1 have res: "check_delete (Suc n) r s = Inr ?s'" by simp
    from c1 obtain tr where
      a1: "accounted (insert r P) G (resources s1)" and
      q1: "quiescent (insert r P) (resources s1)" and
      n1: "released (insert r P) (resources s1) \<le> released (insert r P) (resources s)" and
      v1: "survives (resources s) (resources s1)" and
      t1: "trace s1 = trace ?s0 @ tr" and
      d1: "sound_decrements tr" and
      w1: "\<And>x. cleaned tr x + awaiting (insert r P) (resources s1) x = awaiting (insert r P) (resources s) x"
      unfolding cascade_result_def progress_def r0 by blast
    have "accounted P G (resources ?s')"
      using accounted_exit[OF a1 2(4)] by simp
    moreover have "quiescent P (resources ?s')"
      using quiescent_delete[OF q1] by simp
    moreover have "released P (resources ?s') \<le> released P (resources s)"
      using n1 released_insert_le[of r P "resources s"] by (simp add: released_delete)
    moreover have "survives (resources s) (resources ?s')"
      using survives_trans[OF v1 survives_delete] by simp
    moreover have "trace ?s' = trace s @ (RunCleanup r f # tr)"
      using t1 by (simp add: emit_def)
    moreover have "sound_decrements (RunCleanup r f # tr)"
      using d1 by (simp add: sound_decrements_simps)
    moreover have "cleaned (RunCleanup r f # tr) x + awaiting P (resources ?s') x = awaiting P (resources s) x" for x
    proof (cases "x = r")
      case True
      from w1[of r] have "cleaned tr r = 0" by (simp add: awaiting_inside)
      with True i f 2(4) show ?thesis
        by (simp add: cleaned_simps awaiting_delete awaiting_enter[of "resources s" r i P] awaiting_inside)
    next
      case False
      with w1[of x] i f 2(4) show ?thesis
        by (simp add: cleaned_simps awaiting_delete awaiting_enter[of "resources s" r i P])
    qed
    ultimately have "cascade_result P G s ?s'"
      unfolding cascade_result_def progress_def by blast
    with res show ?thesis by blast
  qed
next
  case (3 n s)
  then show ?case
    by (auto simp: cascade_result_def progress_def survives_refl sound_decrements_simps cleaned_simps)
next
  case (4 n d ds s)
  from 4(3) have "accounted P (add_mset d (G + mset ds)) (resources s)" by simp
  then obtain i where i: "map_of (resources s) d = Some i" and nz: "dependency_count i \<noteq> 0"
    and dP: "d \<notin> P"
    and a0: "accounted P (G + mset ds) (AList.update d (i\<lparr>dependency_count := dependency_count i - 1\<rparr>) (resources s))"
    by (rule accounted_decrement)
  let ?R0 = "AList.update d (i\<lparr>dependency_count := dependency_count i - 1\<rparr>) (resources s)"
  let ?s0 = "decrement d s"
  have s0: "?s0 = emit (Decrement d (dependency_count i)) (s\<lparr>resources := ?R0\<rparr>)"
    using i by (rule resources_decrement)
  have r0: "resources ?s0 = ?R0" by (simp add: s0 emit_def)
  have t0: "trace ?s0 = trace s @ [Decrement d (dependency_count i)]" by (simp add: s0 emit_def)
  have m0: "map_of (resources ?s0) d \<noteq> None" by (simp add: r0 AList.update_conv')
  have q0: "quiescent (insert d P) (resources ?s0)"
    unfolding r0 using 4(4) by (rule quiescent_update)
  have n0: "released P (resources ?s0) < n"
    unfolding r0 using 4(5) i by (simp add: released_update_same)
  from 4(1)[OF a0[folded r0] m0 dP q0 n0] obtain s1 where
    s1: "check_delete n d ?s0 = Inr s1" and c1: "cascade_result P (G + mset ds) ?s0 s1"
    by blast
  from c1 obtain tr1 where
    a1: "accounted P (G + mset ds) (resources s1)" and
    q1: "quiescent P (resources s1)" and
    n1: "released P (resources s1) \<le> released P (resources ?s0)" and
    v1: "survives (resources ?s0) (resources s1)" and
    t1: "trace s1 = trace ?s0 @ tr1" and
    d1: "sound_decrements tr1" and
    w1: "\<And>x. cleaned tr1 x + awaiting P (resources s1) x = awaiting P (resources ?s0) x"
    unfolding cascade_result_def progress_def by blast
  from n1 n0 have n1': "released P (resources s1) < n" by simp
  from 4(2)[OF s1 a1 q1 n1'] obtain s' where
    s': "check_delete_dependents n ds s1 = Inr s'" and c2: "cascade_result P G s1 s'"
    by blast
  from c2 obtain tr2 where
    a2: "accounted P G (resources s')" and
    q2: "quiescent P (resources s')" and
    n2: "released P (resources s') \<le> released P (resources s1)" and
    v2: "survives (resources s1) (resources s')" and
    t2: "trace s' = trace s1 @ tr2" and
    d2: "sound_decrements tr2" and
    w2: "\<And>x. cleaned tr2 x + awaiting P (resources s') x = awaiting P (resources s1) x"
    unfolding cascade_result_def progress_def by blast
  have res: "check_delete_dependents n (d # ds) s = Inr s'"
    using s1 s' by simp
  have "released P (resources s') \<le> released P (resources s)"
    using n2 n1 i by (simp add: r0 released_update_same)
  moreover have "survives (resources s) (resources s')"
    using survives_trans[OF survives_trans[OF survives_decrement[OF i nz] v1[unfolded r0]] v2] .
  moreover have "trace s' = trace s @ (Decrement d (dependency_count i) # tr1 @ tr2)"
    using t0 t1 t2 by simp
  moreover have "sound_decrements (Decrement d (dependency_count i) # tr1 @ tr2)"
    using nz d1 d2 by (simp add: sound_decrements_simps)
  moreover have "cleaned (Decrement d (dependency_count i) # tr1 @ tr2) x + awaiting P (resources s') x
      = awaiting P (resources s) x" for x
    using w1[of x] w2[of x] i by (simp add: cleaned_simps r0 awaiting_update_same)
  ultimately have "cascade_result P G s s'"
    using a2 q2 unfolding cascade_result_def progress_def by blast
  with res show ?case by blast
qed

subsection \<open>The operations that register\<close>

lemma registered_simps:
  "registered [] d = 0"
  "registered (xs @ ys) d = registered xs d + registered ys d"
  "registered [x] d = registers x d"
  by (simp_all add: registered_def)

lemma release_count_simps:
  "release_count [] d = 0"
  "release_count (xs @ ys) d = release_count xs d + release_count ys d"
  "release_count [x] d = releases x d"
  by (simp_all add: release_count_def)

lemma release_ops_simps:
  "release_ops [] = 0"
  "release_ops (xs @ ys) = release_ops xs + release_ops ys"
  "release_ops [x] = (if is_release x then 1 else 0)"
  by (simp_all add: release_ops_def)

lemma bounded_append: "bounded (xs @ ys) \<Longrightarrow> bounded xs"
  unfolding bounded_def registered_simps by (meson add_lessD1)

lemma trigger_targets_update:
  "map_of S sem = Some i \<Longrightarrow>
   trigger_targets (AList.update sem i' S) + targets (triggers i) = trigger_targets S + targets (triggers i')"
  by (induction S) (auto split: if_splits)

lemma trigger_targets_update_new:
  "map_of S sem = None \<Longrightarrow>
   trigger_targets (AList.update sem i' S) = trigger_targets S + targets (triggers i')"
  by (induction S) (auto split: if_splits)

lemma targets_simps:
  "targets [] = {#}"
  "targets (t # ts) = (if dependent t = nullptr then {#} else {#dependent t#}) + targets ts"
  "targets (push t ts) = (if dependent t = nullptr then {#} else {#dependent t#}) + targets ts"
  by (simp_all add: targets_def push_def)

lemma trigger_targets_modify:
  assumes "targets (triggers (f (semaphore_at s sem))) = targets (triggers (semaphore_at s sem)) + A"
  shows "trigger_targets (semaphore_dependencies (modify_semaphore sem f s))
         = trigger_targets (semaphore_dependencies s) + A"
proof (cases "map_of (semaphore_dependencies s) sem")
  case None
  with assms show ?thesis
    by (simp add: modify_semaphore_def semaphore_at_def trigger_targets_update_new
        default_semaphore_info_def targets_simps)
next
  case (Some i)
  from trigger_targets_update[OF Some, of "f i"] assms Some show ?thesis
    by (simp add: modify_semaphore_def semaphore_at_def)
qed

lemma sorted_heaps_update:
  "sorted_heaps S \<Longrightarrow> sorted (map trigger_value (triggers i')) \<Longrightarrow> sorted_heaps (AList.update sem i' S)"
  unfolding sorted_heaps_def by (induction S) auto

lemma sorted_push: "sorted (map trigger_value ts) \<Longrightarrow> sorted (map trigger_value (push t ts))"
  by (simp add: push_def sorted_insort_key)

lemma sorted_heaps_at:
  "sorted_heaps (semaphore_dependencies s) \<Longrightarrow> sorted (map trigger_value (triggers (semaphore_at s sem)))"
  by (auto simp: sorted_heaps_def semaphore_at_def default_semaphore_info_def
      split: option.splits dest!: map_of_SomeD)

lemma sorted_heaps_modify:
  "sorted_heaps (semaphore_dependencies s) \<Longrightarrow>
   sorted (map trigger_value (triggers (f (semaphore_at s sem)))) \<Longrightarrow>
   sorted_heaps (semaphore_dependencies (modify_semaphore sem f s))"
  by (simp add: modify_semaphore_def sorted_heaps_update)

lemma resources_at_increment:
  "resources_at (increment u s) d =
     (if d = u then (resources_at s u)\<lparr>dependency_count := dependency_count (resources_at s u) + 1\<rparr>
      else resources_at s d)"
  by (simp add: increment_def resources_at_def modify_resource_def AList.update_conv')

lemma fold_increment_frame:
  "semaphore_dependencies (fold increment us s) = semaphore_dependencies s \<and>
   mutex_locked (fold increment us s) = mutex_locked s \<and>
   trace (fold increment us s) = trace s"
  by (induction us arbitrary: s) (auto simp: increment_def modify_resource_def)

lemma fold_increment_distinct:
  "distinct (map fst (resources s)) \<Longrightarrow> distinct (map fst (resources (fold increment us s)))"
  by (induction us arbitrary: s) (auto simp: increment_def modify_resource_def AList.distinct_update)

lemma edges_modify_resource:
  assumes "dependents (f (resources_at s r)) = dependents (resources_at s r)"
  shows "edges P (resources (modify_resource r f s)) = edges P (resources s)"
proof (cases "map_of (resources s) r")
  case None
  with assms show ?thesis
    by (simp add: modify_resource_def resources_at_def edges_update_new default_dependency_info_def)
next
  case (Some i)
  with assms show ?thesis
    by (simp add: modify_resource_def resources_at_def edges_update_same)
qed

lemma fold_increment_edges:
  "edges P (resources (fold increment us s)) = edges P (resources s)"
  by (induction us arbitrary: s) (auto simp: increment_def edges_modify_resource)

lemma fold_increment_map_of:
  "map_of (resources (fold increment us s)) d =
     (if d \<in> set us
      then Some ((resources_at s d)\<lparr>dependency_count :=
                   dependency_count (resources_at s d) + of_nat (count_list us d)\<rparr>)
      else map_of (resources s) d)"
proof (induction us arbitrary: s)
  case Nil
  then show ?case by simp
next
  case (Cons u us)
  have m: "map_of (resources (increment u s)) d =
      (if d = u then Some ((resources_at s u)\<lparr>dependency_count := dependency_count (resources_at s u) + 1\<rparr>)
       else map_of (resources s) d)"
    by (simp add: increment_def modify_resource_def AList.update_conv')
  from m Cons.IH[of "increment u s"] show ?case
    by (auto simp: resources_at_increment ac_simps)
qed

lemma unat_add_of_nat:
  fixes c :: size_t
  assumes "unat c + k < 2 ^ 64"
  shows "unat (c + of_nat k) = unat c + k"
proof -
  from assms have "k < 2 ^ 64" by simp
  then have "unat (of_nat k :: size_t) = k" by (simp add: unat_of_nat)
  with assms show ?thesis by (simp add: unat_add_lem[THEN iffD1])
qed

lemma released_update_new:
  "map_of R r = None \<Longrightarrow> cleanup i' = None \<Longrightarrow> released P (AList.update r i' R) = released P R"
  unfolding released_def by (induction R) (auto split: if_splits)

lemma released_modify_resource:
  assumes "cleanup (f (resources_at s r)) = cleanup (resources_at s r)"
  shows "released P (resources (modify_resource r f s)) = released P (resources s)"
proof (cases "map_of (resources s) r")
  case None
  with assms show ?thesis
    by (simp add: modify_resource_def resources_at_def released_update_new default_dependency_info_def)
next
  case (Some i)
  with assms show ?thesis
    by (simp add: modify_resource_def resources_at_def released_update_same)
qed

lemma awaiting_modify_resource:
  assumes "cleanup (f (resources_at s r)) = cleanup (resources_at s r)"
  shows "awaiting P (resources (modify_resource r f s)) x = awaiting P (resources s) x"
  using assms
  by (auto simp: awaiting_def modify_resource_def resources_at_def AList.update_conv'
      default_dependency_info_def split: option.splits)

lemma fold_increment_released:
  "released P (resources (fold increment us s)) = released P (resources s)"
  by (induction us arbitrary: s) (auto simp: increment_def released_modify_resource)

lemma fold_increment_awaiting:
  "awaiting P (resources (fold increment us s)) x = awaiting P (resources s) x"
  by (induction us arbitrary: s) (auto simp: increment_def awaiting_modify_resource)

lemma count_of_resources_at: "count_of (resources s) d = unat (dependency_count (resources_at s d))"
  by (simp add: count_of_def resources_at_def default_dependency_info_def split: option.splits)

lemma fold_increment_count_of:
  assumes "count_of (resources s) d + count_list us d < 2 ^ 64"
  shows "count_of (resources (fold increment us s)) d = count_of (resources s) d + count_list us d"
proof (cases "d \<in> set us")
  case True
  then have "count_of (resources (fold increment us s)) d
      = unat (dependency_count (resources_at s d) + of_nat (count_list us d))"
    by (simp add: count_of_def fold_increment_map_of)
  also have "\<dots> = unat (dependency_count (resources_at s d)) + count_list us d"
    using assms by (intro unat_add_of_nat) (simp add: count_of_resources_at)
  finally show ?thesis by (simp add: count_of_resources_at)
next
  case False
  then show ?thesis by (simp add: count_of_def fold_increment_map_of)
qed

lemma accounted_fold_increment:
  assumes dist: "distinct (map fst (resources s))"
    and short: "\<And>d. if d = nullptr then count (edges {} (resources s) + G) d \<le> count_of (resources s) d + count_list us d
              else count_of (resources s) d + count_list us d = count (edges {} (resources s) + G) d"
    and bound: "\<And>d. count_of (resources s) d + count_list us d < 2 ^ 64"
  shows "accounted {} G (resources (fold increment us s))"
  unfolding accounted_def fold_increment_edges
proof (intro conjI allI)
  show "distinct (map fst (resources (fold increment us s)))"
    using dist by (rule fold_increment_distinct)
next
  fix d
  let ?k = "count (edges {} (resources s) + G) d"
  let ?R' = "resources (fold increment us s)"
  have c: "count_of ?R' d = count_of (resources s) d + count_list us d"
    using bound[of d] by (rule fold_increment_count_of)
  show "balanced {} d ?k (map_of ?R' d)"
  proof (cases "map_of ?R' d")
    case None
    then have "d \<notin> set us" by (auto simp: fold_increment_map_of split: if_splits)
    with None short[of d] c show ?thesis
      by (auto simp: balanced_def count_of_def split: if_splits)
  next
    case (Some i)
    with short[of d] c show ?thesis
      by (auto simp: balanced_def count_of_def split: if_splits)
  qed
qed

lemma quiescent_fold_increment:
  assumes q: "quiescent {} (resources s)"
    and bound: "\<And>d. count_of (resources s) d + count_list us d < 2 ^ 64"
  shows "quiescent {} (resources (fold increment us s))"
  unfolding quiescent_def
proof (intro allI impI)
  fix r i
  assume m: "map_of (resources (fold increment us s)) r = Some i"
  show "\<not> eligible i"
  proof (cases "r \<in> set us")
    case True
    then have "0 < count_list us r" using count_list_0_iff[of us r] by auto
    with fold_increment_count_of[OF bound[of r]] have "0 < count_of (resources (fold increment us s)) r"
      by simp
    with m show ?thesis by (auto simp: count_of_def eligible_def unat_gt_0)
  next
    case False
    with m have "map_of (resources s) r = Some i" by (simp add: fold_increment_map_of)
    with q show ?thesis by (auto simp: quiescent_def)
  qed
qed

lemma accountedI_map:
  "accounted {} G R \<Longrightarrow>
   (if d = nullptr then count (edges {} R + G) d \<le> count_of R d else count_of R d = count (edges {} R + G) d)"
  using accountedD(1)[of "{}" G R d]
  by (auto simp: balanced_def count_of_def split: option.splits)

lemma consistent_cong:
  assumes "consistent xs s"
    and "\<And>d. registered xs d = registered ys d"
    and "release_ops xs = release_ops ys"
    and "\<And>d. release_count xs d = release_count ys d"
  shows "consistent ys s"
  using assms by (simp add: consistent_def)

lemma consistentI:
  assumes "\<not> mutex_locked s"
    and "distinct (map fst (semaphore_dependencies s))"
    and "sorted_heaps (semaphore_dependencies s)"
    and "accounted {} (trigger_targets (semaphore_dependencies s)) (resources s)"
    and "quiescent {} (resources s)"
    and "\<And>d. count_of (resources s) d \<le> registered xs d"
    and "released {} (resources s) \<le> release_ops xs"
    and "sound_decrements (trace s)"
    and "\<And>r. cleaned (trace s) r + awaiting {} (resources s) r \<le> release_count xs r"
  shows "consistent xs s"
  using assms by (simp add: consistent_def)

lemma consistentD:
  assumes "consistent xs s"
  shows "\<not> mutex_locked s"
    and "distinct (map fst (semaphore_dependencies s))"
    and "sorted_heaps (semaphore_dependencies s)"
    and "accounted {} (trigger_targets (semaphore_dependencies s)) (resources s)"
    and "quiescent {} (resources s)"
    and "count_of (resources s) d \<le> registered xs d"
    and "released {} (resources s) \<le> release_ops xs"
    and "sound_decrements (trace s)"
    and "cleaned (trace s) r + awaiting {} (resources s) r \<le> release_count xs r"
  using assms by (simp_all add: consistent_def)

lemma depend_many_consistent:
  assumes c: "consistent xs s" and b: "bounded (xs @ [DependMany us user])"
  shows "\<exists>s'. depend_many us user s = Inr s' \<and> consistent (xs @ [DependMany us user]) s'"
proof -
  let ?G = "trigger_targets (semaphore_dependencies s)"
  let ?s1 = "emit MutexLock (s\<lparr>mutex_locked := True\<rparr>)"
  let ?s2 = "modify_resource user (\<lambda>i. i\<lparr>dependents := dependents i @ us\<rparr>) ?s1"
  let ?s3 = "fold increment us ?s2"
  let ?s' = "unlock ?s3"
  note l = consistentD(1)[OF c] and a = consistentD(4)[OF c] and q = consistentD(5)[OF c]
    and reg = consistentD(6)[OF c]
  from l have res: "depend_many us user s = Inr ?s'"
    by (simp add: depend_many_def lock_def)
  have r1: "resources ?s1 = resources s" by (simp add: emit_def)
  have dist2: "distinct (map fst (resources ?s2))"
    using accountedD(2)[OF a] by (simp add: modify_resource_def emit_def AList.distinct_update)
  have e2: "edges {} (resources ?s2) = edges {} (resources s) + mset us"
  proof (cases "map_of (resources s) user")
    case None
    then show ?thesis
      by (simp add: modify_resource_def resources_at_def emit_def edges_update_new default_dependency_info_def)
  next
    case (Some i)
    with accountedD(2)[OF a] show ?thesis
      by (simp add: modify_resource_def resources_at_def emit_def edges_append)
  qed
  have c2: "count_of (resources ?s2) d = count_of (resources s) d" for d
    by (auto simp: count_of_def modify_resource_def resources_at_def emit_def AList.update_conv'
        default_dependency_info_def split: option.splits)
  have bound: "count_of (resources ?s2) d + count_list us d < 2 ^ 64" for d
  proof -
    from b have "registered xs d + count_list us d < 2 ^ 64"
      by (simp add: bounded_def registered_simps)
    with reg[of d] show ?thesis by (simp add: c2)
  qed
  have short: "if d = nullptr
      then count (edges {} (resources ?s2) + ?G) d \<le> count_of (resources ?s2) d + count_list us d
      else count_of (resources ?s2) d + count_list us d = count (edges {} (resources ?s2) + ?G) d" for d
    using accountedI_map[OF a, of d] by (auto simp: e2 c2 count_mset split: if_splits)
  have a3: "accounted {} ?G (resources ?s3)"
    using dist2 short bound by (rule accounted_fold_increment)
  have q2: "quiescent {} (resources ?s2)"
    using q by (auto simp: quiescent_def modify_resource_def resources_at_def emit_def AList.update_conv'
        eligible_def default_dependency_info_def split: if_splits option.splits)
  have q3: "quiescent {} (resources ?s3)"
    using q2 bound by (rule quiescent_fold_increment)
  have c3: "count_of (resources ?s3) d \<le> registered (xs @ [DependMany us user]) d" for d
    using fold_increment_count_of[OF bound[of d]] reg[of d] by (simp add: c2 registered_simps)
  have n3: "released {} (resources ?s3) = released {} (resources s)"
    by (simp add: fold_increment_released released_modify_resource r1)
  have w3: "awaiting {} (resources ?s3) r = awaiting {} (resources s) r" for r
    by (simp add: fold_increment_awaiting awaiting_modify_resource r1)
  have fr: "semaphore_dependencies ?s' = semaphore_dependencies s"
    "trace ?s' = trace s @ [MutexLock, MutexUnlock]" "resources ?s' = resources ?s3"
    by (simp_all add: unlock_def emit_def fold_increment_frame modify_resource_def)
  have "consistent (xs @ [DependMany us user]) ?s'"
  proof (rule consistentI)
    show "\<not> mutex_locked ?s'" by (simp add: unlock_def emit_def)
    show "distinct (map fst (semaphore_dependencies ?s'))"
      unfolding fr by (rule consistentD(2)[OF c])
    show "sorted_heaps (semaphore_dependencies ?s')"
      unfolding fr by (rule consistentD(3)[OF c])
    show "accounted {} (trigger_targets (semaphore_dependencies ?s')) (resources ?s')"
      unfolding fr by (rule a3)
    show "quiescent {} (resources ?s')" unfolding fr by (rule q3)
    show "count_of (resources ?s') d \<le> registered (xs @ [DependMany us user]) d" for d
      unfolding fr by (rule c3)
    show "released {} (resources ?s') \<le> release_ops (xs @ [DependMany us user])"
      unfolding fr n3 using consistentD(7)[OF c] by (simp add: release_ops_simps)
    show "sound_decrements (trace ?s')"
      unfolding fr using consistentD(8)[OF c] by (simp add: sound_decrements_def)
    show "cleaned (trace ?s') r + awaiting {} (resources ?s') r
        \<le> release_count (xs @ [DependMany us user]) r" for r
      unfolding fr w3 using consistentD(9)[OF c, of r]
      by (simp add: release_count_simps cleaned_def)
  qed
  with res show ?thesis by blast
qed

lemma depend_consistent:
  assumes c: "consistent xs s" and b: "bounded (xs @ [Depend used user])"
  shows "\<exists>s'. depend used user s = Inr s' \<and> consistent (xs @ [Depend used user]) s'"
proof -
  have "registered (xs @ [DependMany [used] user]) d = registered (xs @ [Depend used user]) d" for d
    by (simp add: registered_simps)
  with b have "bounded (xs @ [DependMany [used] user])"
    by (simp add: bounded_def)
  from depend_many_consistent[OF c this] obtain s' where
    s': "depend_many [used] user s = Inr s'" "consistent (xs @ [DependMany [used] user]) s'"
    by blast
  from s'(2) have "consistent (xs @ [Depend used user]) s'"
    by (rule consistent_cong)
      (simp_all add: registered_simps release_ops_simps release_count_simps)
  with s'(1) show ?thesis by (auto simp: depend_def)
qed

lemma frame_modify_semaphore:
  "resources (modify_semaphore sem f s) = resources s"
  "trace (modify_semaphore sem f s) = trace s"
  "mutex_locked (modify_semaphore sem f s) = mutex_locked s"
  "distinct (map fst (semaphore_dependencies s)) \<Longrightarrow>
   distinct (map fst (semaphore_dependencies (modify_semaphore sem f s)))"
  by (simp_all add: modify_semaphore_def AList.distinct_update)

lemma frame_lock:
  "resources (emit e s) = resources s"
  "semaphore_dependencies (emit e s) = semaphore_dependencies s"
  "mutex_locked (emit e s) = mutex_locked s"
  "trace (emit e s) = trace s @ [e]"
  "resources (unlock s) = resources s"
  "semaphore_dependencies (unlock s) = semaphore_dependencies s"
  "mutex_locked (unlock s) = False"
  "trace (unlock s) = trace s @ [MutexUnlock]"
  by (simp_all add: emit_def unlock_def)

lemma semaphore_at_frame:
  "semaphore_dependencies s' = semaphore_dependencies s \<Longrightarrow> semaphore_at s' = semaphore_at s"
  by (simp add: semaphore_at_def fun_eq_iff)

lemma semaphore_at_simps:
  "semaphore_at (s\<lparr>mutex_locked := b\<rparr>) = semaphore_at s"
  "semaphore_at (s\<lparr>trace := t\<rparr>) = semaphore_at s"
  "semaphore_at (s\<lparr>resources := R\<rparr>) = semaphore_at s"
  "semaphore_at (emit e s) = semaphore_at s"
  by (simp_all add: semaphore_at_def fun_eq_iff emit_def)

lemma resources_at_simps:
  "resources_at (s\<lparr>mutex_locked := b\<rparr>) = resources_at s"
  "resources_at (s\<lparr>trace := t\<rparr>) = resources_at s"
  "resources_at (s\<lparr>semaphore_dependencies := S\<rparr>) = resources_at s"
  "resources_at (emit e s) = resources_at s"
  by (simp_all add: resources_at_def fun_eq_iff emit_def)

text \<open>An operation that changes the semaphore map only, keeping the pending decrements.\<close>

lemma semaphore_op_consistent:
  assumes c: "consistent xs s"
    and t: "targets (triggers (f (semaphore_at s sem))) = targets (triggers (semaphore_at s sem))"
    and so: "sorted (map trigger_value (triggers (semaphore_at s sem))) \<Longrightarrow>
        sorted (map trigger_value (triggers (f (semaphore_at s sem))))"
    and x: "\<And>d. registers x d = 0" "\<not> is_release x" "\<And>d. releases x d = 0"
  shows "consistent (xs @ [x])
     (unlock (modify_semaphore sem f (emit MutexLock (s\<lparr>mutex_locked := True\<rparr>))))"
    (is "consistent _ ?s'")
proof -
  let ?s1 = "emit MutexLock (s\<lparr>mutex_locked := True\<rparr>)"
  have sa: "semaphore_at ?s1 = semaphore_at s"
    by (rule semaphore_at_frame) (simp add: emit_def)
  have sd: "semaphore_dependencies ?s' = semaphore_dependencies (modify_semaphore sem f ?s1)"
    by (simp add: frame_lock)
  have "targets (triggers (f (semaphore_at ?s1 sem))) = targets (triggers (semaphore_at ?s1 sem)) + {#}"
    unfolding sa using t by simp
  from trigger_targets_modify[of f ?s1 sem "{#}", OF this]
  have tt: "trigger_targets (semaphore_dependencies ?s') = trigger_targets (semaphore_dependencies s)"
    unfolding sd by (simp add: emit_def)
  have r: "resources ?s' = resources s" by (simp add: frame_lock frame_modify_semaphore)
  have tr: "trace ?s' = trace s @ [MutexLock, MutexUnlock]"
    by (simp add: frame_lock frame_modify_semaphore)
  show ?thesis
  proof (rule consistentI)
    show "\<not> mutex_locked ?s'" by (simp add: frame_lock)
    show "distinct (map fst (semaphore_dependencies ?s'))"
      unfolding sd using consistentD(2)[OF c]
      by (intro frame_modify_semaphore(4)) (simp add: emit_def)
    show "sorted_heaps (semaphore_dependencies ?s')"
      unfolding sd using consistentD(3)[OF c] so sorted_heaps_at[OF consistentD(3)[OF c], of sem]
      by (intro sorted_heaps_modify) (simp_all add: semaphore_at_simps emit_def)
    show "accounted {} (trigger_targets (semaphore_dependencies ?s')) (resources ?s')"
      unfolding tt r by (rule consistentD(4)[OF c])
    show "quiescent {} (resources ?s')" unfolding r by (rule consistentD(5)[OF c])
    show "count_of (resources ?s') d \<le> registered (xs @ [x]) d" for d
      unfolding r using consistentD(6)[OF c, of d] by (simp add: registered_simps)
    show "released {} (resources ?s') \<le> release_ops (xs @ [x])"
      unfolding r using consistentD(7)[OF c] by (simp add: release_ops_simps)
    show "sound_decrements (trace ?s')"
      unfolding tr using consistentD(8)[OF c] by (simp add: sound_decrements_def)
    show "cleaned (trace ?s') r + awaiting {} (resources ?s') r \<le> release_count (xs @ [x]) r" for r
      unfolding tr r using consistentD(9)[OF c, of r]
      by (simp add: release_count_simps cleaned_def)
  qed
qed

lemma release_semaphore_consistent:
  assumes c: "consistent xs s"
  shows "\<exists>s'. release_semaphore sem s = Inr s' \<and> consistent (xs @ [ReleaseSemaphore sem]) s'"
proof -
  have "consistent (xs @ [ReleaseSemaphore sem])
     (unlock (modify_semaphore sem (\<lambda>i. i\<lparr>should_destroy := True\<rparr>) (emit MutexLock (s\<lparr>mutex_locked := True\<rparr>))))"
    using c by (rule semaphore_op_consistent) simp_all
  with consistentD(1)[OF c] show ?thesis
    by (simp add: release_semaphore_def lock_def)
qed

lemma add_trigger_consistent:
  assumes c: "consistent xs s"
  shows "\<exists>s'. add_trigger sem v f s = Inr s' \<and> consistent (xs @ [AddTrigger sem v f]) s'"
proof -
  have "consistent (xs @ [AddTrigger sem v f])
     (unlock (modify_semaphore sem (\<lambda>i. i\<lparr>triggers := push (Trigger v nullptr f) (triggers i)\<rparr>)
        (emit MutexLock (s\<lparr>mutex_locked := True\<rparr>))))"
    using c by (rule semaphore_op_consistent) (simp_all add: targets_simps sorted_push)
  with consistentD(1)[OF c] show ?thesis
    by (simp add: add_trigger_def lock_def)
qed

subsection \<open>\<open>release\<close> and \<open>depend\<close> on a counter\<close>

lemma progress_refl: "progress P s s"
  by (auto simp: progress_def survives_refl sound_decrements_simps cleaned_simps)

lemma progress_trans:
  assumes "progress P s s1" "progress P s1 s2"
  shows "progress P s s2"
proof -
  from assms(1) obtain tr1 where 1: "released P (resources s1) \<le> released P (resources s)"
    "survives (resources s) (resources s1)" "trace s1 = trace s @ tr1" "sound_decrements tr1"
    "\<And>r. cleaned tr1 r + awaiting P (resources s1) r = awaiting P (resources s) r"
    unfolding progress_def by blast
  from assms(2) obtain tr2 where 2: "released P (resources s2) \<le> released P (resources s1)"
    "survives (resources s1) (resources s2)" "trace s2 = trace s1 @ tr2" "sound_decrements tr2"
    "\<And>r. cleaned tr2 r + awaiting P (resources s2) r = awaiting P (resources s1) r"
    unfolding progress_def by blast
  have "released P (resources s2) \<le> released P (resources s)" using 1(1) 2(1) by simp
  moreover have "survives (resources s) (resources s2)" using 1(2) 2(2) by (rule survives_trans)
  moreover have "trace s2 = trace s @ (tr1 @ tr2)" using 1(3) 2(3) by simp
  moreover have "sound_decrements (tr1 @ tr2)" using 1(4) 2(4) by (simp add: sound_decrements_simps)
  moreover have "cleaned (tr1 @ tr2) r + awaiting P (resources s2) r = awaiting P (resources s) r" for r
    using 1(5)[of r] 2(5)[of r] by (simp add: cleaned_simps)
  ultimately show ?thesis unfolding progress_def by blast
qed

lemma cascade_result_trans:
  "progress P s s1 \<Longrightarrow> cascade_result P G s1 s2 \<Longrightarrow> cascade_result P G s s2"
  by (auto simp: cascade_result_def intro: progress_trans)

lemma progress_decrement:
  assumes "map_of (resources s) d = Some i" "dependency_count i \<noteq> 0"
  shows "progress P s (decrement d s)"
proof -
  let ?R0 = "AList.update d (i\<lparr>dependency_count := dependency_count i - 1\<rparr>) (resources s)"
  have s0: "decrement d s = emit (Decrement d (dependency_count i)) (s\<lparr>resources := ?R0\<rparr>)"
    using assms(1) by (rule resources_decrement)
  have "released P (resources (decrement d s)) \<le> released P (resources s)"
    using assms(1) by (simp add: s0 emit_def released_update_same)
  moreover have "survives (resources s) (resources (decrement d s))"
    using survives_decrement[OF assms] by (simp add: s0 emit_def)
  moreover have "trace (decrement d s) = trace s @ [Decrement d (dependency_count i)]"
    by (simp add: s0 emit_def)
  moreover have "sound_decrements [Decrement d (dependency_count i)]"
    using assms(2) by (simp add: sound_decrements_simps)
  moreover have "cleaned [Decrement d (dependency_count i)] r + awaiting P (resources (decrement d s)) r
      = awaiting P (resources s) r" for r
    using assms(1) by (simp add: s0 emit_def cleaned_simps awaiting_update_same)
  ultimately show ?thesis unfolding progress_def by blast
qed

lemma progress_emit:
  assumes "\<not> cascade_event e"
  shows "progress P s (emit e s)"
proof -
  from assms have "sound_decrements [e]" "\<And>r. cleaned [e] r = 0"
    by (cases e; simp add: sound_decrements_def cleaned_def)+
  then show ?thesis
    unfolding progress_def
    by (intro conjI exI[of _ "[e]"]) (simp_all add: emit_def survives_refl)
qed

lemma survives_count_of:
  assumes "survives R R'"
  shows "count_of R' d \<le> count_of R d"
proof (cases "map_of R' d")
  case None
  then show ?thesis by (simp add: count_of_def)
next
  case (Some i')
  with assms obtain i where "map_of R d = Some i" "unat (dependency_count i') \<le> unat (dependency_count i)"
    unfolding survives_def by blast
  with Some show ?thesis by (simp add: count_of_def)
qed

lemma accounted_modify_resource:
  assumes a: "accounted P G (resources s)"
    and f: "dependents (f (resources_at s r)) = dependents (resources_at s r)"
       "dependency_count (f (resources_at s r)) = dependency_count (resources_at s r)"
  shows "accounted P G (resources (modify_resource r f s))"
  unfolding accounted_def edges_modify_resource[of f s r, OF f(1)]
proof (intro conjI allI)
  show "distinct (map fst (resources (modify_resource r f s)))"
    using accountedD(2)[OF a] by (simp add: modify_resource_def AList.distinct_update)
next
  fix d
  from accountedD(1)[OF a, of d] f(2)
  show "balanced P d (count (edges P (resources s) + G) d) (map_of (resources (modify_resource r f s)) d)"
    by (auto simp: balanced_def map_of_modify_resource resources_at_def default_dependency_info_def
        split: option.splits if_splits)
qed

lemma released_update_le: "released P (AList.update r i' R) \<le> Suc (released P R)"
  unfolding released_def by (induction R) auto

lemma released_update_None: "cleanup i' = None \<Longrightarrow> released P (AList.update r i' R) \<le> released P R"
  unfolding released_def by (induction R) auto

lemma release_consistent:
  assumes c: "consistent xs s" and n: "release_ops (xs @ [Release r f]) < n"
  shows "\<exists>s'. release n r f s = Inr s' \<and> consistent (xs @ [Release r f]) s'"
proof -
  let ?x = "Release r f"
  let ?G = "trigger_targets (semaphore_dependencies s)"
  let ?s1 = "emit MutexLock (s\<lparr>mutex_locked := True\<rparr>)"
  let ?s2 = "modify_resource r (\<lambda>i. i\<lparr>cleanup := f\<rparr>) ?s1"
  have r1: "resources ?s1 = resources s" by (simp add: emit_def)
  have "accounted {} ?G (resources ?s1)" unfolding r1 by (rule consistentD(4)[OF c])
  then have a2: "accounted {} ?G (resources ?s2)"
    by (rule accounted_modify_resource) simp_all
  have r2: "resources ?s2 = AList.update r ((resources_at s r)\<lparr>cleanup := f\<rparr>) (resources s)"
    by (simp add: modify_resource_def emit_def resources_at_simps)
  have m2: "map_of (resources ?s2) r \<noteq> None" by (simp add: r2 AList.update_conv')
  have q2: "quiescent {r} (resources ?s2)"
    unfolding r2 using consistentD(5)[OF c] by (rule quiescent_update)
  have n2: "released {} (resources ?s2) \<le> release_ops (xs @ [?x])"
    unfolding r2
  proof (cases f)
    case None
    have "released {} (AList.update r ((resources_at s r)\<lparr>cleanup := f\<rparr>) (resources s))
        \<le> released {} (resources s)"
      by (rule released_update_None) (simp add: None)
    with consistentD(7)[OF c] show "released {} (AList.update r ((resources_at s r)\<lparr>cleanup := f\<rparr>) (resources s))
        \<le> release_ops (xs @ [?x])"
      by (simp add: release_ops_simps)
  next
    case (Some g)
    have "released {} (AList.update r ((resources_at s r)\<lparr>cleanup := f\<rparr>) (resources s))
        \<le> Suc (released {} (resources s))"
      by (rule released_update_le)
    with consistentD(7)[OF c] Some show "released {} (AList.update r ((resources_at s r)\<lparr>cleanup := f\<rparr>) (resources s))
        \<le> release_ops (xs @ [?x])"
      by (simp add: release_ops_simps)
  qed
  with n have n2': "released {} (resources ?s2) < n" by simp
  from cascade_core(1)[OF a2 m2 _ q2 n2'] obtain s3 where
    s3: "check_delete n r ?s2 = Inr s3" and c3: "cascade_result {} ?G ?s2 s3"
    by blast
  note fr = cascade_frame(1)[OF s3]
  from fr have sd3: "semaphore_dependencies s3 = semaphore_dependencies s"
    by (simp add: modify_resource_def emit_def)
  from c3 obtain tr where a3: "accounted {} ?G (resources s3)" and q3: "quiescent {} (resources s3)"
    and n3: "released {} (resources s3) \<le> released {} (resources ?s2)"
    and v3: "survives (resources ?s2) (resources s3)"
    and t3: "trace s3 = trace ?s2 @ tr" and d3: "sound_decrements tr"
    and w3: "\<And>x. cleaned tr x + awaiting {} (resources s3) x = awaiting {} (resources ?s2) x"
    unfolding cascade_result_def progress_def by blast
  have t3': "trace (unlock s3) = trace s @ MutexLock # tr @ [MutexUnlock]"
    using t3 by (simp add: frame_lock modify_resource_def emit_def)
  have c2: "count_of (resources ?s2) d = count_of (resources s) d" for d
    by (auto simp: r2 count_of_def AList.update_conv' resources_at_def default_dependency_info_def
        split: option.splits)
  have w2: "awaiting {} (resources ?s2) x \<le> awaiting {} (resources s) x + releases ?x x" for x
    unfolding r2
    by (cases f) (auto simp: awaiting_def AList.update_conv' resources_at_def default_dependency_info_def
        split: option.splits)
  from consistentD(1)[OF c] s3 have res: "release n r f s = Inr (unlock s3)"
    by (simp add: release_def lock_def)
  have "consistent (xs @ [?x]) (unlock s3)"
  proof (rule consistentI)
    show "\<not> mutex_locked (unlock s3)" by (simp add: frame_lock)
    show "distinct (map fst (semaphore_dependencies (unlock s3)))"
      using consistentD(2)[OF c] by (simp add: frame_lock sd3)
    show "sorted_heaps (semaphore_dependencies (unlock s3))"
      using consistentD(3)[OF c] by (simp add: frame_lock sd3)
    show "accounted {} (trigger_targets (semaphore_dependencies (unlock s3))) (resources (unlock s3))"
      using a3 by (simp add: frame_lock sd3)
    show "quiescent {} (resources (unlock s3))" using q3 by (simp add: frame_lock)
    show "count_of (resources (unlock s3)) d \<le> registered (xs @ [?x]) d" for d
      using survives_count_of[OF v3, of d] consistentD(6)[OF c, of d]
      by (simp add: frame_lock c2 registered_simps)
    show "released {} (resources (unlock s3)) \<le> release_ops (xs @ [?x])"
      using n3 n2 by (simp add: frame_lock)
    show "sound_decrements (trace (unlock s3))"
      unfolding t3' using d3 consistentD(8)[OF c] by (auto simp: sound_decrements_def)
    show "cleaned (trace (unlock s3)) x + awaiting {} (resources (unlock s3)) x
        \<le> release_count (xs @ [?x]) x" for x
      unfolding t3' using w3[of x] w2[of x] consistentD(9)[OF c, of x]
      by (simp add: frame_lock release_count_simps cleaned_def)
  qed
  with res show ?thesis by blast
qed

lemma depend_timeline_consistent:
  assumes c: "consistent xs s" and b: "bounded (xs @ [DependTimeline used sem v])"
  shows "\<exists>s'. depend_timeline used sem v s = Inr s' \<and> consistent (xs @ [DependTimeline used sem v]) s'"
proof -
  let ?x = "DependTimeline used sem v"
  let ?G = "trigger_targets (semaphore_dependencies s)"
  let ?A = "if used = nullptr then {#} else {#used#}"
  let ?s1 = "emit MutexLock (s\<lparr>mutex_locked := True\<rparr>)"
  let ?s2 = "increment used ?s1"
  let ?f = "\<lambda>i. i\<lparr>triggers := push (Trigger v used None) (triggers i)\<rparr>"
  let ?s3 = "modify_semaphore sem ?f ?s2"
  let ?s' = "unlock ?s3"
  have inc: "fold increment [used] ?s1 = ?s2" by simp
  have res: "depend_timeline used sem v s = Inr ?s'"
    using consistentD(1)[OF c] by (simp add: depend_timeline_def lock_def)
  have r1: "resources ?s1 = resources s" by (simp add: emit_def)
  note a = consistentD(4)[OF c]
  have bound: "count_of (resources ?s1) d + count_list [used] d < 2 ^ 64" for d
  proof -
    have "registered (xs @ [?x]) d = registered xs d + count_list [used] d"
      by (simp add: registered_simps)
    moreover from b have "registered (xs @ [?x]) d < 2 ^ 64"
      by (simp add: bounded_def)
    ultimately have "registered xs d + count_list [used] d < 2 ^ 64" by (simp only:)
    with consistentD(6)[OF c, of d] show ?thesis unfolding r1 by linarith
  qed
  have short: "if d = nullptr
      then count (edges {} (resources ?s1) + (?G + ?A)) d \<le> count_of (resources ?s1) d + count_list [used] d
      else count_of (resources ?s1) d + count_list [used] d = count (edges {} (resources ?s1) + (?G + ?A)) d" for d
    using accountedI_map[OF a, of d] unfolding r1 by (auto split: if_splits)
  have dist: "distinct (map fst (resources ?s1))" unfolding r1 by (rule accountedD(2)[OF a])
  have a2: "accounted {} (?G + ?A) (resources ?s2)"
    using accounted_fold_increment[of ?s1 "?G + ?A" "[used]", OF dist short bound]
    unfolding inc .
  have "quiescent {} (resources ?s1)" unfolding r1 by (rule consistentD(5)[OF c])
  from quiescent_fold_increment[of ?s1 "[used]", OF this bound]
  have q2: "quiescent {} (resources ?s2)" unfolding inc .
  have c2: "count_of (resources ?s2) d \<le> registered (xs @ [?x]) d" for d
  proof -
    have "registered (xs @ [?x]) d = registered xs d + count_list [used] d"
      by (simp add: registered_simps)
    with fold_increment_count_of[of ?s1 d "[used]", OF bound[of d], unfolded inc]
      consistentD(6)[OF c, of d] show ?thesis unfolding r1 by linarith
  qed
  have sd2: "semaphore_dependencies ?s2 = semaphore_dependencies s"
    using fold_increment_frame[of "[used]" ?s1, unfolded inc] by (simp add: emit_def)
  have sa: "semaphore_at ?s2 = semaphore_at s"
    using sd2 by (rule semaphore_at_frame)
  have n2: "released {} (resources ?s2) = released {} (resources s)"
    using fold_increment_released[of "{}" "[used]" ?s1, unfolded inc] unfolding r1 .
  have w2: "awaiting {} (resources ?s2) r = awaiting {} (resources s) r" for r
    using fold_increment_awaiting[of "{}" "[used]" ?s1 r, unfolded inc] unfolding r1 .
  have "targets (triggers (?f (semaphore_at ?s2 sem))) = targets (triggers (semaphore_at ?s2 sem)) + ?A"
    by (simp add: targets_simps)
  from trigger_targets_modify[of ?f ?s2 sem ?A, OF this]
  have tt: "trigger_targets (semaphore_dependencies ?s3) = ?G + ?A"
    unfolding sd2 .
  have t2: "trace ?s2 = trace s @ [MutexLock]"
    using fold_increment_frame[of "[used]" ?s1, unfolded inc] by (simp add: emit_def)
  have fr: "resources ?s' = resources ?s2" "semaphore_dependencies ?s' = semaphore_dependencies ?s3"
    "trace ?s' = trace s @ [MutexLock, MutexUnlock]"
    by (simp_all add: frame_lock frame_modify_semaphore t2)
  have "consistent (xs @ [?x]) ?s'"
  proof (rule consistentI)
    show "\<not> mutex_locked ?s'" by (simp add: frame_lock)
    show "distinct (map fst (semaphore_dependencies ?s'))"
      unfolding fr using consistentD(2)[OF c]
      by (intro frame_modify_semaphore(4)) (simp add: sd2)
    have "sorted (map trigger_value (triggers (?f (semaphore_at ?s2 sem))))"
      unfolding sa using sorted_heaps_at[OF consistentD(3)[OF c], of sem] by (simp add: sorted_push)
    with consistentD(3)[OF c] show "sorted_heaps (semaphore_dependencies ?s')"
      unfolding fr by (intro sorted_heaps_modify) (simp_all add: sd2)
    show "accounted {} (trigger_targets (semaphore_dependencies ?s')) (resources ?s')"
      unfolding fr tt by (rule a2)
    show "quiescent {} (resources ?s')" unfolding fr by (rule q2)
    show "count_of (resources ?s') d \<le> registered (xs @ [?x]) d" for d
      unfolding fr by (rule c2)
    show "released {} (resources ?s') \<le> release_ops (xs @ [?x])"
      unfolding fr n2 using consistentD(7)[OF c] by (simp add: release_ops_simps)
    show "sound_decrements (trace ?s')"
      unfolding fr using consistentD(8)[OF c] by (simp add: sound_decrements_def)
    show "cleaned (trace ?s') r + awaiting {} (resources ?s') r \<le> release_count (xs @ [?x]) r" for r
      unfolding fr w2 using consistentD(9)[OF c, of r]
      by (simp add: release_count_simps cleaned_def)
  qed
  with res show ?thesis by blast
qed

subsection \<open>\<open>collect\<close>\<close>

lemma fire_triggers_remaining:
  "fire_triggers n v ts s = Inr (ts', s') \<Longrightarrow> ts' = remaining v ts"
  by (induction ts arbitrary: s) (auto simp: remaining_def split: if_splits sum.splits)

lemma collect_loop_collected:
  "collect_loop n vals S s = Inr (kept, s') \<Longrightarrow> kept = collected vals S"
proof (induction S arbitrary: s kept)
  case Nil
  then show ?case by simp
next
  case (Cons x S)
  obtain sem info where x: "x = (sem, info)" by (cases x)
  from Cons.prems x obtain ts s1 where f: "fire_triggers n (vals sem) (triggers info) s = Inr (ts, s1)"
    by (auto split: sum.splits)
  note ts = fire_triggers_remaining[OF f]
  show ?case
  proof (cases "ts = [] \<and> should_destroy info")
    case True
    with Cons.prems x f have "collect_loop n vals S (emit (DestroySemaphore sem) s1) = Inr (kept, s')"
      by simp
    from Cons.IH[OF this] True ts x show ?thesis by simp
  next
    case False
    with Cons.prems x f obtain kept' where k: "collect_loop n vals S s1 = Inr (kept', s')"
      "kept = (sem, info\<lparr>triggers := ts\<rparr>) # kept'"
      by (auto split: sum.splits)
    from Cons.IH[OF k(1)] k(2) False ts x show ?thesis by auto
  qed
qed

lemma collect_semaphores:
  assumes "collect n vals s = Inr s'"
  shows "semaphore_dependencies s' = collected vals (semaphore_dependencies s)"
proof -
  from assms obtain kept s2 where
    c: "collect_loop n vals (semaphore_dependencies s) (emit MutexLock (s\<lparr>mutex_locked := True\<rparr>)) = Inr (kept, s2)"
    and s': "s' = unlock (s2\<lparr>semaphore_dependencies := kept\<rparr>)"
    by (auto simp: collect_def lock_def emit_def split: sum.splits if_splits)
  from collect_loop_collected[OF c] s' show ?thesis by (simp add: unlock_def emit_def)
qed

lemma keys_collected: "(k, i) \<in> set (collected vals S) \<Longrightarrow> k \<in> fst ` set S"
  by (induction S) (force split: if_splits)+

lemma distinct_collected: "distinct (map fst S) \<Longrightarrow> distinct (map fst (collected vals S))"
proof (induction S)
  case Nil
  then show ?case by simp
next
  case (Cons x S)
  with keys_collected[of _ _ vals S] show ?case by (cases x) auto
qed

lemma sorted_remaining: "sorted (map trigger_value ts) \<Longrightarrow> sorted (map trigger_value (remaining v ts))"
  unfolding remaining_def by (induction ts) auto

lemma sorted_heaps_collected: "sorted_heaps S \<Longrightarrow> sorted_heaps (collected vals S)"
  unfolding sorted_heaps_def by (induction S) (auto simp: sorted_remaining split: if_splits)

lemma cascade_result_refl:
  "accounted P G (resources s) \<Longrightarrow> quiescent P (resources s) \<Longrightarrow> cascade_result P G s s"
  by (simp add: cascade_result_def progress_refl)

lemma fire_ok:
  assumes a: "accounted {} (targets [t] + G) (resources s)"
    and q: "quiescent {} (resources s)"
    and n: "released {} (resources s) < n"
  shows "\<exists>s'. fire n t s = Inr s' \<and> cascade_result {} G s s'"
proof -
  define s1 where "s1 = (case callback t of None \<Rightarrow> s | Some f \<Rightarrow> emit (RunCallback f) s)"
  have r1: "resources s1 = resources s" by (simp add: s1_def emit_def split: option.splits)
  have p1: "progress {} s s1"
    by (auto simp: s1_def progress_refl progress_emit split: option.splits)
  show ?thesis
  proof (cases "dependent t = nullptr")
    case True
    with a q have "cascade_result {} G s1 s1"
      by (intro cascade_result_refl) (simp_all add: r1 targets_simps)
    with p1 have "cascade_result {} G s s1" by (rule cascade_result_trans)
    moreover from True have "fire n t s = Inr s1" by (simp add: fire_def s1_def)
    ultimately show ?thesis by blast
  next
    case False
    let ?d = "dependent t"
    from a False have "accounted {} (add_mset ?d G) (resources s1)"
      by (simp add: r1 targets_simps)
    then obtain i where i: "map_of (resources s1) ?d = Some i" and nz: "dependency_count i \<noteq> 0"
      and a0: "accounted {} G (AList.update ?d (i\<lparr>dependency_count := dependency_count i - 1\<rparr>) (resources s1))"
      by (rule accounted_decrement)
    let ?R0 = "AList.update ?d (i\<lparr>dependency_count := dependency_count i - 1\<rparr>) (resources s1)"
    let ?s0 = "decrement ?d s1"
    have r0: "resources ?s0 = ?R0"
      by (simp add: resources_decrement[OF i] emit_def)
    have m0: "map_of (resources ?s0) ?d \<noteq> None" by (simp add: r0 AList.update_conv')
    have q0: "quiescent {?d} (resources ?s0)"
      unfolding r0 using q[folded r1] by (rule quiescent_update)
    have n0: "released {} (resources ?s0) < n"
      unfolding r0 using n i by (simp add: released_update_same r1)
    from cascade_core(1)[OF a0[folded r0] m0 _ q0 n0] obtain s' where
      s': "check_delete n ?d ?s0 = Inr s'" and c': "cascade_result {} G ?s0 s'"
      by blast
    have "progress {} s ?s0"
      using p1 progress_decrement[OF i nz] by (rule progress_trans)
    then have "cascade_result {} G s s'" using c' by (rule cascade_result_trans)
    moreover from False s' have "fire n t s = Inr s'" by (simp add: fire_def s1_def Let_def)
    ultimately show ?thesis by blast
  qed
qed

lemma cascade_resultD:
  assumes "cascade_result P G s s'"
  shows "accounted P G (resources s')" "quiescent P (resources s')" "progress P s s'"
    "released P (resources s') \<le> released P (resources s)"
  using assms by (simp_all add: cascade_result_def progress_def)

lemma fire_triggers_ok:
  assumes "accounted {} (targets ts + G) (resources s)"
    and "quiescent {} (resources s)"
    and "released {} (resources s) < n"
  shows "\<exists>s'. fire_triggers n v ts s = Inr (remaining v ts, s') \<and>
     cascade_result {} (targets (remaining v ts) + G) s s'"
  using assms
proof (induction ts arbitrary: s)
  case Nil
  then show ?case by (simp add: remaining_def cascade_result_refl)
next
  case (Cons t ts)
  show ?case
  proof (cases "trigger_value t \<le> v")
    case False
    with Cons.prems show ?thesis by (simp add: remaining_def cascade_result_refl)
  next
    case True
    from Cons.prems(1) have "accounted {} (targets [t] + (targets ts + G)) (resources s)"
      by (simp add: targets_simps ac_simps)
    from fire_ok[OF this Cons.prems(2,3)] obtain s1 where
      s1: "fire n t s = Inr s1" and c1: "cascade_result {} (targets ts + G) s s1"
      by blast
    note d1 = cascade_resultD[OF c1]
    from d1(4) Cons.prems(3) have "released {} (resources s1) < n" by simp
    from Cons.IH[OF d1(1,2) this] obtain s' where
      s': "fire_triggers n v ts s1 = Inr (remaining v ts, s')"
      and c': "cascade_result {} (targets (remaining v ts) + G) s1 s'"
      by blast
    from True have rem: "remaining v (t # ts) = remaining v ts" by (simp add: remaining_def)
    from d1(3) c' have "cascade_result {} (targets (remaining v ts) + G) s s'"
      by (rule cascade_result_trans)
    with True s1 s' rem show ?thesis by simp
  qed
qed

lemma collect_loop_ok:
  assumes "accounted {} (trigger_targets S + G) (resources s)"
    and "quiescent {} (resources s)"
    and "released {} (resources s) < n"
  shows "\<exists>s'. collect_loop n vals S s = Inr (collected vals S, s') \<and>
     cascade_result {} (trigger_targets (collected vals S) + G) s s'"
  using assms
proof (induction S arbitrary: s G)
  case Nil
  then show ?case by (simp add: cascade_result_refl)
next
  case (Cons x S)
  obtain sem info where x: "x = (sem, info)" by (cases x)
  let ?ts = "remaining (vals sem) (triggers info)"
  from Cons.prems(1) x have "accounted {} (targets (triggers info) + (trigger_targets S + G)) (resources s)"
    by (simp add: ac_simps)
  from fire_triggers_ok[OF this Cons.prems(2,3)] obtain s1 where
    s1: "fire_triggers n (vals sem) (triggers info) s = Inr (?ts, s1)"
    and c1: "cascade_result {} (targets ?ts + (trigger_targets S + G)) s s1"
    by blast
  note d1 = cascade_resultD[OF c1]
  from d1(4) Cons.prems(3) have n1: "released {} (resources s1) < n" by simp
  show ?case
  proof (cases "?ts = [] \<and> should_destroy info")
    case True
    let ?s1' = "emit (DestroySemaphore sem) s1"
    have r1': "resources ?s1' = resources s1" by (simp add: emit_def)
    from d1(1) True have "accounted {} (trigger_targets S + G) (resources ?s1')"
      by (simp add: r1' targets_simps)
    from Cons.IH[OF this d1(2)[folded r1'] n1[folded r1']] obtain s' where
      s': "collect_loop n vals S ?s1' = Inr (collected vals S, s')"
      and c': "cascade_result {} (trigger_targets (collected vals S) + G) ?s1' s'"
      by blast
    have "progress {} s ?s1'"
      using d1(3) progress_emit[of "DestroySemaphore sem" "{}" s1] by (auto intro: progress_trans)
    then have "cascade_result {} (trigger_targets (collected vals S) + G) s s'"
      using c' by (rule cascade_result_trans)
    with True x s1 s' show ?thesis by simp
  next
    case False
    from d1(1) have "accounted {} (trigger_targets S + (targets ?ts + G)) (resources s1)"
      by (simp add: ac_simps)
    from Cons.IH[OF this d1(2) n1] obtain s' where
      s': "collect_loop n vals S s1 = Inr (collected vals S, s')"
      and c': "cascade_result {} (trigger_targets (collected vals S) + (targets ?ts + G)) s1 s'"
      by blast
    from d1(3) c' have "cascade_result {} (trigger_targets (collected vals S) + (targets ?ts + G)) s s'"
      by (rule cascade_result_trans)
    with False x s1 s' show ?thesis by (auto simp: ac_simps)
  qed
qed

text \<open>Lock events, device waits and callbacks change nothing of what \<open>consistent\<close> states of the trace.\<close>

lemma consistent_collect:
  assumes c: "consistent xs s" and n: "release_ops xs < n"
  shows "\<exists>s'. collect n vals s = Inr s' \<and> consistent xs s' \<and> survives (resources s) (resources s')"
proof -
  let ?S = "semaphore_dependencies s"
  let ?s1 = "emit MutexLock (s\<lparr>mutex_locked := True\<rparr>)"
  have r1: "resources ?s1 = resources s" by (simp add: emit_def)
  from consistentD(4)[OF c] have a1: "accounted {} (trigger_targets ?S + {#}) (resources ?s1)"
    by (simp add: r1)
  have q1: "quiescent {} (resources ?s1)" unfolding r1 by (rule consistentD(5)[OF c])
  have n1: "released {} (resources ?s1) < n" unfolding r1 using consistentD(7)[OF c] n by simp
  from collect_loop_ok[OF a1 q1 n1] obtain s2 where
    s2: "collect_loop n vals ?S ?s1 = Inr (collected vals ?S, s2)"
    and c2: "cascade_result {} (trigger_targets (collected vals ?S) + {#}) ?s1 s2"
    by blast
  let ?s' = "unlock (s2\<lparr>semaphore_dependencies := collected vals ?S\<rparr>)"
  from consistentD(1)[OF c] s2 have res: "collect n vals s = Inr ?s'"
    by (simp add: collect_def lock_def emit_def)
  from c2 obtain tr where a2: "accounted {} (trigger_targets (collected vals ?S)) (resources s2)"
    and q2: "quiescent {} (resources s2)"
    and n2: "released {} (resources s2) \<le> released {} (resources s)"
    and v2: "survives (resources s) (resources s2)"
    and t2: "trace s2 = trace ?s1 @ tr" and d2: "sound_decrements tr"
    and w2: "\<And>x. cleaned tr x + awaiting {} (resources s2) x = awaiting {} (resources s) x"
    unfolding cascade_result_def progress_def r1 by auto
  have t': "trace ?s' = trace s @ MutexLock # tr @ [MutexUnlock]"
    using t2 by (simp add: unlock_def emit_def)
  have fr: "resources ?s' = resources s2" "semaphore_dependencies ?s' = collected vals ?S"
    by (simp_all add: unlock_def emit_def)
  have "consistent xs ?s'"
  proof (rule consistentI)
    show "\<not> mutex_locked ?s'" by (simp add: unlock_def emit_def)
    show "distinct (map fst (semaphore_dependencies ?s'))"
      unfolding fr using consistentD(2)[OF c] by (rule distinct_collected)
    show "sorted_heaps (semaphore_dependencies ?s')"
      unfolding fr using consistentD(3)[OF c] by (rule sorted_heaps_collected)
    show "accounted {} (trigger_targets (semaphore_dependencies ?s')) (resources ?s')"
      unfolding fr by (rule a2)
    show "quiescent {} (resources ?s')" unfolding fr by (rule q2)
    show "count_of (resources ?s') d \<le> registered xs d" for d
      unfolding fr using survives_count_of[OF v2, of d] consistentD(6)[OF c, of d] by simp
    show "released {} (resources ?s') \<le> release_ops xs"
      unfolding fr using n2 consistentD(7)[OF c] by simp
    show "sound_decrements (trace ?s')"
      unfolding t' using d2 consistentD(8)[OF c] by (auto simp: sound_decrements_def)
    show "cleaned (trace ?s') x + awaiting {} (resources ?s') x \<le> release_count xs x" for x
      unfolding t' fr using w2[of x] consistentD(9)[OF c, of x]
      by (simp add: cleaned_def)
  qed
  with res v2 fr(1) show ?thesis by auto
qed

lemma consistent_lock_events:
  assumes c: "consistent xs s" and e: "set tr \<subseteq> {MutexLock, MutexUnlock, DeviceWaitIdle}"
  shows "consistent xs (s\<lparr>trace := trace s @ tr\<rparr>)"
proof -
  from e have s: "sound_decrements tr" by (auto simp: sound_decrements_def)
  from e have "filter (is_cleanup_of r) tr = []" for r
    by (auto simp: filter_empty_conv)
  then have cl: "cleaned tr r = 0" for r by (simp add: cleaned_def)
  from c s cl show ?thesis
    by (simp add: consistent_def sound_decrements_simps cleaned_simps)
qed

lemma consistent_wait_collect:
  assumes c: "consistent xs s" and n: "release_ops xs < n"
  shows "\<exists>s'. wait_collect n vals vals' s = Inr s' \<and> consistent xs s'"
proof -
  from consistent_collect[OF c n] obtain s1 where
    s1: "collect n vals s = Inr s1" and c1: "consistent xs s1"
    by blast
  note l1 = consistentD(1)[OF c1]
  let ?sl = "emit MutexLock (s1\<lparr>mutex_locked := True\<rparr>)"
  have lk: "lock s1 = Inr ?sl" using l1 by (simp add: lock_def)
  have rl: "resources ?sl = resources s1" "semaphore_dependencies ?sl = semaphore_dependencies s1"
    by (simp_all add: emit_def)
  show ?thesis
  proof (cases "resources s1 \<noteq> [] \<or> semaphore_dependencies s1 \<noteq> []")
    case False
    have "unlock ?sl = s1\<lparr>trace := trace s1 @ [MutexLock, MutexUnlock]\<rparr>"
      using l1 by (simp add: unlock_def emit_def)
    moreover have "consistent xs (s1\<lparr>trace := trace s1 @ [MutexLock, MutexUnlock]\<rparr>)"
      using c1 by (rule consistent_lock_events) simp
    ultimately have "consistent xs (unlock ?sl)" by simp
    moreover from False have "wait_collect n vals vals' s = Inr (unlock ?sl)"
      by (simp add: wait_collect_def s1 lk rl)
    ultimately show ?thesis by blast
  next
    case True
    let ?s2 = "unlock (emit DeviceWaitIdle ?sl)"
    have "?s2 = s1\<lparr>trace := trace s1 @ [MutexLock, DeviceWaitIdle, MutexUnlock]\<rparr>"
      using l1 by (simp add: unlock_def emit_def)
    moreover have "consistent xs (s1\<lparr>trace := trace s1 @ [MutexLock, DeviceWaitIdle, MutexUnlock]\<rparr>)"
      using c1 by (rule consistent_lock_events) simp
    ultimately have "consistent xs ?s2" by simp
    from consistent_collect[OF this n] obtain s' where
      s': "collect n vals' ?s2 = Inr s'" "consistent xs s'"
      by blast
    from True have "wait_collect n vals vals' s = collect n vals' ?s2"
      by (simp add: wait_collect_def s1 lk rl)
    with s' show ?thesis by auto
  qed
qed

subsection \<open>Every bounded run keeps the state consistent\<close>

lemma consistent_init: "consistent [] init"
  by (simp add: consistent_def init_def accounted_def balanced_def quiescent_def sorted_heaps_def
      count_of_def released_def sound_decrements_def cleaned_def awaiting_def)

lemma step_consistent:
  assumes c: "consistent xs s" and b: "bounded (xs @ [x])" and n: "release_ops (xs @ [x]) < n"
  shows "\<exists>s'. step n x s = Inr s' \<and> consistent (xs @ [x]) s'"
proof (cases x)
  case (Release r f)
  with release_consistent[OF c, of r f n] n show ?thesis by simp
next
  case (ReleaseSemaphore sem)
  with release_semaphore_consistent[OF c, of sem] show ?thesis by simp
next
  case (Depend used user)
  with depend_consistent[OF c, of used user] b show ?thesis by simp
next
  case (DependMany used user)
  with depend_many_consistent[OF c, of used user] b show ?thesis by simp
next
  case (DependTimeline used sem v)
  with depend_timeline_consistent[OF c, of used sem v] b show ?thesis by simp
next
  case (AddTrigger sem v f)
  with add_trigger_consistent[OF c, of sem v f] show ?thesis by simp
next
  case (Collect vals)
  from n Collect have "release_ops xs < n" by (simp add: release_ops_simps)
  from consistent_collect[OF c this, of vals] obtain s' where
    s': "collect n vals s = Inr s'" "consistent xs s'" by blast
  from s'(2) have "consistent (xs @ [x]) s'"
    by (rule consistent_cong)
      (simp_all add: Collect registered_simps release_ops_simps release_count_simps)
  with s'(1) Collect show ?thesis by simp
next
  case (WaitCollect vals vals')
  from n WaitCollect have "release_ops xs < n" by (simp add: release_ops_simps)
  from consistent_wait_collect[OF c this, of vals vals'] obtain s' where
    s': "wait_collect n vals vals' s = Inr s'" "consistent xs s'" by blast
  from s'(2) have "consistent (xs @ [x]) s'"
    by (rule consistent_cong)
      (simp_all add: WaitCollect registered_simps release_ops_simps release_count_simps)
  with s'(1) WaitCollect show ?thesis by simp
qed

lemma run_consistent_from:
  assumes "consistent ys s" "bounded (ys @ xs)" "release_ops (ys @ xs) < n"
  shows "\<exists>s'. run n xs s = Inr s' \<and> consistent (ys @ xs) s'"
  using assms
proof (induction xs arbitrary: ys s)
  case Nil
  then show ?case by simp
next
  case (Cons x xs)
  from Cons.prems(2) have b: "bounded (ys @ [x])"
    using bounded_append[of "ys @ [x]" xs] by simp
  from Cons.prems(3) have n: "release_ops (ys @ [x]) < n"
    by (auto simp: release_ops_def split: if_splits)
  from step_consistent[OF Cons.prems(1) b n] obtain s1 where
    s1: "step n x s = Inr s1" "consistent (ys @ [x]) s1" by blast
  from Cons.IH[of "ys @ [x]" s1] s1(2) Cons.prems(2,3) obtain s' where
    "run n xs s1 = Inr s'" "consistent (ys @ x # xs) s'" by auto
  with s1(1) show ?case by simp
qed

lemma run_consistent:
  assumes "bounded xs" "release_ops xs < n"
  shows "\<exists>s. run n xs init = Inr s \<and> consistent xs s"
  using run_consistent_from[of "[]" init xs n] assms consistent_init by simp

subsection \<open>More stack changes no result\<close>

lemma check_delete_mono:
  "check_delete n r s = Inr s' \<Longrightarrow> n \<le> m \<Longrightarrow> check_delete m r s = Inr s'"
  "check_delete_dependents n ds s = Inr s' \<Longrightarrow> n \<le> m \<Longrightarrow> check_delete_dependents m ds s = Inr s'"
proof (induction n r s and n ds s arbitrary: s' m and s' m rule: check_delete_check_delete_dependents.induct)
  case (1 r s)
  then show ?case by simp
next
  case (2 n r s)
  from 2(3) obtain m' where m: "m = Suc m'" "n \<le> m'" by (cases m) auto
  from 2(2) show ?case
  proof (cases rule: check_delete_SucE)
    case (keep info)
    then show ?thesis by (auto simp: m eligible_def split: option.splits)
  next
    case (del info f s1)
    from 2(1)[OF del(1,2,3,4) m(2)] del show ?thesis by (simp add: m)
  qed
next
  case (3 n s)
  then show ?case by simp
next
  case (4 n d ds s)
  from 4(3) obtain s1 where s1: "check_delete n d (decrement d s) = Inr s1"
    and s': "check_delete_dependents n ds s1 = Inr s'"
    by (rule check_delete_dependents_ConsE)
  from 4(1)[OF s1 4(4)] 4(2)[OF s1 s' 4(4)] show ?case by simp
qed

lemma fire_mono: "fire n t s = Inr s' \<Longrightarrow> n \<le> m \<Longrightarrow> fire m t s = Inr s'"
  by (auto simp: fire_def Let_def split: if_splits dest: check_delete_mono(1))

lemma fire_triggers_mono:
  "fire_triggers n v ts s = Inr (ts', s') \<Longrightarrow> n \<le> m \<Longrightarrow> fire_triggers m v ts s = Inr (ts', s')"
proof (induction ts arbitrary: s)
  case Nil
  then show ?case by simp
next
  case (Cons t ts)
  show ?case
  proof (cases "trigger_value t \<le> v")
    case False
    with Cons.prems show ?thesis by auto
  next
    case True
    with Cons.prems obtain s1 where s1: "fire n t s = Inr s1"
      and r: "fire_triggers n v ts s1 = Inr (ts', s')"
      by (auto split: sum.splits)
    from fire_mono[OF s1 Cons.prems(2)] Cons.IH[OF r Cons.prems(2)] True show ?thesis by simp
  qed
qed

lemma collect_loop_mono:
  "collect_loop n vals S s = Inr (kept, s') \<Longrightarrow> n \<le> m \<Longrightarrow> collect_loop m vals S s = Inr (kept, s')"
proof (induction S arbitrary: s kept)
  case Nil
  then show ?case by simp
next
  case (Cons x S)
  obtain sem info where x: "x = (sem, info)" by (cases x)
  from Cons.prems x obtain ts s1 where f: "fire_triggers n (vals sem) (triggers info) s = Inr (ts, s1)"
    by (auto split: sum.splits)
  note f' = fire_triggers_mono[OF f Cons.prems(2)]
  show ?case
  proof (cases "ts = [] \<and> should_destroy info")
    case True
    with Cons.prems x f have "collect_loop n vals S (emit (DestroySemaphore sem) s1) = Inr (kept, s')"
      by simp
    from Cons.IH[OF this Cons.prems(2)] True x f' show ?thesis by simp
  next
    case False
    with Cons.prems x f obtain kept' where k: "collect_loop n vals S s1 = Inr (kept', s')"
      "kept = (sem, info\<lparr>triggers := ts\<rparr>) # kept'"
      by (auto split: sum.splits)
    from Cons.IH[OF k(1) Cons.prems(2)] k(2) False x f' show ?thesis by auto
  qed
qed

lemma collect_mono:
  assumes "collect n vals s = Inr s'" "n \<le> m"
  shows "collect m vals s = Inr s'"
proof -
  from assms(1) obtain s1 kept s2 where l: "lock s = Inr s1"
    and c: "collect_loop n vals (semaphore_dependencies s1) s1 = Inr (kept, s2)"
    and s': "s' = unlock (s2\<lparr>semaphore_dependencies := kept\<rparr>)"
    by (auto simp: collect_def split: sum.splits)
  from collect_loop_mono[OF c assms(2)] l s' show ?thesis by (simp add: collect_def)
qed

lemma wait_collect_mono:
  assumes "wait_collect n vals vals' s = Inr s'" "n \<le> m"
  shows "wait_collect m vals vals' s = Inr s'"
proof -
  from assms(1) obtain s1 s2 where c: "collect n vals s = Inr s1" and l: "lock s1 = Inr s2"
    by (auto simp: wait_collect_def split: sum.splits)
  note c' = collect_mono[OF c assms(2)]
  show ?thesis
  proof (cases "resources s2 \<noteq> [] \<or> semaphore_dependencies s2 \<noteq> []")
    case True
    with assms(1) c l have "collect n vals' (unlock (emit DeviceWaitIdle s2)) = Inr s'"
      by (simp add: wait_collect_def)
    from collect_mono[OF this assms(2)] True c' l show ?thesis by (simp add: wait_collect_def)
  next
    case False
    with assms(1) c l c' show ?thesis by (simp add: wait_collect_def)
  qed
qed

lemma release_mono:
  assumes "release n r f s = Inr s'" "n \<le> m"
  shows "release m r f s = Inr s'"
proof -
  from assms(1) obtain s1 s2 where l: "lock s = Inr s1"
    and c: "check_delete n r (modify_resource r (\<lambda>i. i\<lparr>cleanup := f\<rparr>) s1) = Inr s2"
    and s': "s' = unlock s2"
    by (auto simp: release_def split: sum.splits)
  from check_delete_mono(1)[OF c assms(2)] l s' show ?thesis by (simp add: release_def)
qed

lemma step_mono: "step n x s = Inr s' \<Longrightarrow> n \<le> m \<Longrightarrow> step m x s = Inr s'"
  by (cases x) (auto dest: release_mono collect_mono wait_collect_mono)

lemma run_mono: "run n xs s = Inr s' \<Longrightarrow> n \<le> m \<Longrightarrow> run m xs s = Inr s'"
proof (induction xs arbitrary: s)
  case Nil
  then show ?case by simp
next
  case (Cons x xs)
  from Cons.prems(1) obtain s1 where s1: "step n x s = Inr s1" and r: "run n xs s1 = Inr s'"
    by (auto split: sum.splits)
  from step_mono[OF s1 Cons.prems(2)] Cons.IH[OF r Cons.prems(2)] show ?case by simp
qed

text \<open>Every state that a bounded run reaches is consistent, whatever the stack it had.\<close>

lemma reachable_consistent:
  assumes "bounded xs" "run n xs init = Inr s"
  shows "consistent xs s"
proof -
  let ?m = "max n (Suc (release_ops xs))"
  have "release_ops xs < ?m" by simp
  from run_consistent[OF assms(1) this] obtain s' where
    s': "run ?m xs init = Inr s'" "consistent xs s'" by blast
  from run_mono[OF assms(2), of ?m] s'(1) have "s' = s" by simp
  with s'(2) show ?thesis by simp
qed

section \<open>The dependency counts\<close>

lemma accounted_explicit:
  assumes "accounted {} G R"
  shows "(\<forall>d i. map_of R d = Some i \<longrightarrow> d \<noteq> nullptr \<longrightarrow>
             unat (dependency_count i) = count (edges {} R) d + count G d) \<and>
         (\<forall>d. map_of R d = None \<longrightarrow> count (edges {} R) d + count G d = 0)"
proof (intro conjI allI impI)
  fix d i
  assume "map_of R d = Some i" "d \<noteq> nullptr"
  with accountedD(1)[OF assms, of d]
  show "unat (dependency_count i) = count (edges {} R) d + count G d"
    by (simp add: balanced_def)
next
  fix d
  assume "map_of R d = None"
  with accountedD(1)[OF assms, of d]
  show "count (edges {} R) d + count G d = 0"
    by (simp add: balanced_def)
qed

text \<open>
  Claim C8. Let a run register fewer than \<open>2 ^ 64\<close> dependencies on each resource. With
  more stack frames than it has releases, it returns a state. In every state it reaches,
  no decrement of the trace was applied to a count of 0, so no count has wrapped; the
  count of every record other than \<open>nullptr\<close> is the number of decrements still to come
  for it, one for each entry of a \<open>dependents\<close> list and one for each pending trigger that
  names it; and a resource without a record has none to come.
\<close>

theorem dependency_count_never_wraps:
  assumes "bounded xs"
  shows "(release_ops xs < n \<longrightarrow> (\<exists>s. run n xs init = Inr s)) \<and>
    (\<forall>s. run n xs init = Inr s \<longrightarrow>
       (\<forall>d c. Decrement d c \<in> set (trace s) \<longrightarrow> c \<noteq> 0) \<and>
       (\<forall>d i. map_of (resources s) d = Some i \<longrightarrow> d \<noteq> nullptr \<longrightarrow>
          unat (dependency_count i) =
            count (edges {} (resources s)) d + count (trigger_targets (semaphore_dependencies s)) d) \<and>
       (\<forall>d. map_of (resources s) d = None \<longrightarrow>
          count (edges {} (resources s)) d + count (trigger_targets (semaphore_dependencies s)) d = 0))"
proof (intro conjI impI allI)
  assume "release_ops xs < n"
  with run_consistent[OF assms] show "\<exists>s. run n xs init = Inr s" by blast
next
  fix s d c
  assume "run n xs init = Inr s" "Decrement d c \<in> set (trace s)"
  with consistentD(8)[OF reachable_consistent[OF assms]] show "c \<noteq> 0"
    by (auto simp: sound_decrements_def)
next
  fix s d i
  assume r: "run n xs init = Inr s" and "map_of (resources s) d = Some i" "d \<noteq> nullptr"
  with accounted_explicit[OF consistentD(4)[OF reachable_consistent[OF assms r]]]
  show "unat (dependency_count i) =
      count (edges {} (resources s)) d + count (trigger_targets (semaphore_dependencies s)) d"
    by blast
next
  fix s d
  assume r: "run n xs init = Inr s" and "map_of (resources s) d = None"
  with accounted_explicit[OF consistentD(4)[OF reachable_consistent[OF assms r]]]
  show "count (edges {} (resources s)) d + count (trigger_targets (semaphore_dependencies s)) d = 0"
    by blast
qed

lemma example_run:
  "run 2 [Depend 1 2, DependTimeline 1 7 5, Release 1 (Some 11), Release 2 (Some 12), Collect (poll_all 5)] init =
    Inr \<lparr>resources = [], semaphore_dependencies = [(7, \<lparr>triggers = [], should_destroy = False\<rparr>)],
         mutex_locked = False,
         trace = [MutexLock, MutexUnlock, MutexLock, MutexUnlock, MutexLock, MutexUnlock,
                  MutexLock, RunCleanup 2 12, Decrement 1 2, MutexUnlock,
                  MutexLock, Decrement 1 1, RunCleanup 1 11, MutexUnlock]\<rparr>"
  by (simp add: init_def depend_def depend_many_def depend_timeline_def release_def collect_def
      lock_def unlock_def emit_def modify_resource_def modify_semaphore_def resources_at_def
      semaphore_at_def increment_def decrement_def default_dependency_info_def
      default_semaphore_info_def push_def poll_all_def fire_def nullptr_def numeral_2_eq_2)

lemma example_bounded:
  "bounded [Depend 1 2, DependTimeline 1 7 5, Release 1 (Some 11), Release 2 (Some 12), Collect (poll_all 5)]"
  by (simp add: bounded_def registered_def)

theorem dependency_count_never_wraps_witness:
  "bounded [Depend 1 2, DependTimeline 1 7 5, Release 1 (Some 11), Release 2 (Some 12), Collect (poll_all 5)] \<and>
   (\<exists>s. run 2 [Depend 1 2, DependTimeline 1 7 5, Release 1 (Some 11), Release 2 (Some 12), Collect (poll_all 5)] init
          = Inr s \<and>
        trace s = [MutexLock, MutexUnlock, MutexLock, MutexUnlock, MutexLock, MutexUnlock,
                   MutexLock, RunCleanup 2 12, Decrement 1 2, MutexUnlock,
                   MutexLock, Decrement 1 1, RunCleanup 1 11, MutexUnlock] \<and>
        resources s = [] \<and>
        (2 \<noteq> (0 :: size_t)) \<and> (1 \<noteq> (0 :: size_t)) \<and>
        count (edges {} (resources s)) 1 + count (trigger_targets (semaphore_dependencies s)) 1 = 0)"
  using dependency_count_never_wraps [OF example_bounded, of 2] example_bounded example_run
  by simp

section \<open>Which records exist\<close>

lemma lazy_creation:
  assumes "map_of (resources s) r = None" "\<not> mutex_locked s"
  shows "\<exists>s'. release (Suc n) r None s = Inr s' \<and>
            map_of (resources s') r = Some \<lparr>dependency_count = 0, dependents = [], cleanup = None\<rparr>"
    and "\<exists>s'. depend_timeline r sem v s = Inr s' \<and>
            map_of (resources s') r = Some \<lparr>dependency_count = 1, dependents = [], cleanup = None\<rparr>"
    and "used \<noteq> r \<Longrightarrow> \<exists>s'. depend used r s = Inr s' \<and>
            map_of (resources s') r = Some \<lparr>dependency_count = 0, dependents = [used], cleanup = None\<rparr>"
    and "user \<noteq> r \<Longrightarrow> \<exists>s'. depend r user s = Inr s' \<and>
            map_of (resources s') r = Some \<lparr>dependency_count = 1, dependents = [], cleanup = None\<rparr>"
    and "r \<notin> set us \<Longrightarrow> \<exists>s'. depend_many us r s = Inr s' \<and>
            map_of (resources s') r = Some \<lparr>dependency_count = 0, dependents = us, cleanup = None\<rparr>"
    and "r \<in> set us \<Longrightarrow> user \<noteq> r \<Longrightarrow> \<exists>s'. depend_many us user s = Inr s' \<and>
            map_of (resources s') r =
              Some \<lparr>dependency_count = of_nat (count_list us r), dependents = [], cleanup = None\<rparr>"
  using assms
  by (simp_all add: release_def depend_timeline_def depend_def depend_many_def lock_def unlock_def
      emit_def modify_resource_def modify_semaphore_def resources_at_def increment_def
      AList.update_conv' default_dependency_info_def fold_increment_map_of)

text \<open>
  Claim C7, as the code has it. In every state that a bounded run reaches, no record can
  be deleted: each has a count above 0 or no cleanup. It can have neither, as the record
  of \<open>user\<close> after \<open>depend(used, user)\<close>. A resource without a record gets one, built from
  the zero state, by \<open>release\<close>, by \<open>depend\<close> on a counter or on a resource, and by
  \<open>depend_many\<close>.
\<close>

theorem records_not_eligible:
  assumes "bounded xs"
  shows "(release_ops xs < n \<longrightarrow> (\<exists>s. run n xs init = Inr s)) \<and>
    (\<forall>s. run n xs init = Inr s \<longrightarrow>
       (\<forall>r i. map_of (resources s) r = Some i \<longrightarrow> dependency_count i \<noteq> 0 \<or> cleanup i = None)) \<and>
    (\<forall>s r. map_of (resources s) r = None \<longrightarrow> \<not> mutex_locked s \<longrightarrow>
       (\<exists>s'. release (Suc n) r None s = Inr s' \<and>
            map_of (resources s') r = Some \<lparr>dependency_count = 0, dependents = [], cleanup = None\<rparr>) \<and>
       (\<forall>sem v. \<exists>s'. depend_timeline r sem v s = Inr s' \<and>
            map_of (resources s') r = Some \<lparr>dependency_count = 1, dependents = [], cleanup = None\<rparr>) \<and>
       (\<forall>used. used \<noteq> r \<longrightarrow> (\<exists>s'. depend used r s = Inr s' \<and>
            map_of (resources s') r = Some \<lparr>dependency_count = 0, dependents = [used], cleanup = None\<rparr>)) \<and>
       (\<forall>user. user \<noteq> r \<longrightarrow> (\<exists>s'. depend r user s = Inr s' \<and>
            map_of (resources s') r = Some \<lparr>dependency_count = 1, dependents = [], cleanup = None\<rparr>)) \<and>
       (\<forall>us. r \<notin> set us \<longrightarrow> (\<exists>s'. depend_many us r s = Inr s' \<and>
            map_of (resources s') r = Some \<lparr>dependency_count = 0, dependents = us, cleanup = None\<rparr>)) \<and>
       (\<forall>us user. r \<in> set us \<longrightarrow> user \<noteq> r \<longrightarrow> (\<exists>s'. depend_many us user s = Inr s' \<and>
            map_of (resources s') r =
              Some \<lparr>dependency_count = of_nat (count_list us r), dependents = [], cleanup = None\<rparr>)))"
proof (intro conjI impI allI)
  assume "release_ops xs < n"
  with run_consistent[OF assms] show "\<exists>s. run n xs init = Inr s" by blast
next
  fix s r i
  assume "run n xs init = Inr s" "map_of (resources s) r = Some i"
  with consistentD(5)[OF reachable_consistent[OF assms]]
  show "dependency_count i \<noteq> 0 \<or> cleanup i = None"
    by (auto simp: quiescent_def eligible_def)
qed (rule lazy_creation; assumption)+

theorem records_not_eligible_witness:
  "bounded [Depend 1 2, Release 1 (Some 11), DependTimeline 3 7 5, Collect (poll_all 5)] \<and>
   (\<exists>s. run 1 [Depend 1 2, Release 1 (Some 11), DependTimeline 3 7 5, Collect (poll_all 5)] init = Inr s \<and>
      map_of (resources s) 1 = Some \<lparr>dependency_count = 1, dependents = [], cleanup = Some 11\<rparr> \<and>
      map_of (resources s) 2 = Some \<lparr>dependency_count = 0, dependents = [1], cleanup = None\<rparr> \<and>
      map_of (resources s) 3 = Some \<lparr>dependency_count = 0, dependents = [], cleanup = None\<rparr> \<and>
      ((1 :: size_t) \<noteq> 0 \<or> Some (11 :: nat) = None) \<and> ((0 :: size_t) \<noteq> 0 \<or> (None :: nat option) = None) \<and>
      map_of (resources s) 5 = None \<and> \<not> mutex_locked s \<and>
      (\<exists>s'. release (Suc 1) 5 None s = Inr s' \<and>
         map_of (resources s') 5 = Some \<lparr>dependency_count = 0, dependents = [], cleanup = None\<rparr>) \<and>
      (\<exists>s'. depend_timeline 5 7 9 s = Inr s' \<and>
         map_of (resources s') 5 = Some \<lparr>dependency_count = 1, dependents = [], cleanup = None\<rparr>) \<and>
      (\<exists>s'. depend 1 5 s = Inr s' \<and>
         map_of (resources s') 5 = Some \<lparr>dependency_count = 0, dependents = [1], cleanup = None\<rparr>) \<and>
      (\<exists>s'. depend 5 1 s = Inr s' \<and>
         map_of (resources s') 5 = Some \<lparr>dependency_count = 1, dependents = [], cleanup = None\<rparr>))"
proof -
  have b: "bounded [Depend 1 2, Release 1 (Some 11), DependTimeline 3 7 5, Collect (poll_all 5)]"
    by (simp add: bounded_def registered_def)
  have r: "run 1 [Depend 1 2, Release 1 (Some 11), DependTimeline 3 7 5, Collect (poll_all 5)] init =
    Inr \<lparr>resources = [(2, \<lparr>dependency_count = 0, dependents = [1], cleanup = None\<rparr>),
                      (1, \<lparr>dependency_count = 1, dependents = [], cleanup = Some 11\<rparr>),
                      (3, \<lparr>dependency_count = 0, dependents = [], cleanup = None\<rparr>)],
         semaphore_dependencies = [(7, \<lparr>triggers = [], should_destroy = False\<rparr>)],
         mutex_locked = False,
         trace = [MutexLock, MutexUnlock, MutexLock, MutexUnlock, MutexLock, MutexUnlock,
                  MutexLock, Decrement 3 1, MutexUnlock]\<rparr>"
    by (simp add: init_def depend_def depend_many_def depend_timeline_def release_def collect_def
      lock_def unlock_def emit_def modify_resource_def modify_semaphore_def resources_at_def
      semaphore_at_def increment_def decrement_def default_dependency_info_def
      default_semaphore_info_def push_def poll_all_def fire_def nullptr_def)
  from records_not_eligible [OF b, of 1] b r show ?thesis by simp
qed

text \<open>
  The claim as the specification states it fails: after \<open>depend(1, 2)\<close> the record of 2
  has count 0 and no cleanup, and no trigger is pending.
\<close>

theorem records_not_eligible_counterexample:
  "map_sum id (\<lambda>s. (map_of (resources s) 2, semaphore_dependencies s)) (run 0 [Depend 1 2] init) =
     Inr (Some \<lparr>dependency_count = 0, dependents = [1], cleanup = None\<rparr>, [])"
  by (simp add: init_def depend_def depend_many_def lock_def unlock_def emit_def modify_resource_def
      resources_at_def increment_def default_dependency_info_def)

section \<open>Deletion\<close>

lemma check_delete_not_eligible:
  "map_of (resources s) r = Some i \<Longrightarrow> \<not> eligible i \<Longrightarrow> check_delete (Suc m) r s = Inr s"
  by (auto simp: eligible_def split: option.splits)

lemma check_delete_eligible:
  assumes "map_of (resources s) r = Some i" "dependency_count i = 0" "cleanup i = Some f"
    and "check_delete (Suc m) r s = Inr s'"
  shows "map_of (resources s') r = None \<and> (\<exists>tr. trace s' = trace s @ RunCleanup r f # tr)"
proof -
  from assms obtain s1 where
    s1: "check_delete_dependents m (dependents i) (emit (RunCleanup r f) s) = Inr s1"
    and s': "s' = s1\<lparr>resources := AList.delete r (resources s1)\<rparr>"
    by (auto split: sum.splits)
  from cascade_frame(2)[OF s1] s' show ?thesis
    by (auto simp: emit_def AList.delete_conv')
qed

subsection \<open>The cleanups run when the count is 0\<close>

lemma timely_append:
  "timely c k (tr @ tr') \<longleftrightarrow> timely c k tr \<and> timely (counts_after c tr) (cleanups_after k tr) tr'"
  by (induction c k tr rule: timely.induct) (auto simp: fun_upd_def)

lemma counts_after_append: "counts_after c (tr @ tr') = counts_after (counts_after c tr) tr'"
  by (induction c tr rule: counts_after.induct) (auto simp: fun_upd_def)

lemma cleanups_after_append: "cleanups_after k (tr @ tr') = cleanups_after (cleanups_after k tr) tr'"
  by (induction k tr rule: cleanups_after.induct) (auto simp: fun_upd_def)

lemma counts_after_le: "counts_after c tr q \<le> c q"
proof (induction c tr rule: counts_after.induct)
  case (2 c d x tr)
  have "counts_after (c(d := c d - 1)) tr q \<le> (c(d := c d - 1)) q" by (rule 2)
  also have "\<dots> \<le> c q" by simp
  finally show ?case by simp
qed simp_all



lemma count_of_delete: "count_of (AList.delete r R) q = (if q = r then 0 else count_of R q)"
  by (simp add: count_of_def AList.delete_conv')

lemma cleanup_of_delete: "cleanup_of (AList.delete r R) q = (if q = r then None else cleanup_of R q)"
  by (simp add: cleanup_of_def AList.delete_conv')

lemma cascade_replay:
  "check_delete n r s = Inr s' \<Longrightarrow> trace s' = trace s @ tr \<Longrightarrow> sound_decrements tr \<Longrightarrow> r \<notin> P \<Longrightarrow>
   (\<And>q. c q = count_of (resources s) q) \<Longrightarrow>
   (\<And>q. k q = (if q \<in> P then None else cleanup_of (resources s) q)) \<Longrightarrow>
   (\<And>q. q \<in> P \<Longrightarrow> c q = 0) \<Longrightarrow>
   timely c k tr \<and>
   (\<forall>q. counts_after c tr q = count_of (resources s') q) \<and>
   (\<forall>q. cleanups_after k tr q = (if q \<in> P then None else cleanup_of (resources s') q)) \<and>
   (\<forall>q. map_of (resources s) q = None \<longrightarrow> map_of (resources s') q = None) \<and>
   (\<forall>q f. RunCleanup q f \<in> set tr \<longrightarrow> map_of (resources s') q = None)"
  "check_delete_dependents n ds s = Inr s' \<Longrightarrow> trace s' = trace s @ tr \<Longrightarrow> sound_decrements tr \<Longrightarrow>
   (\<And>q. c q = count_of (resources s) q) \<Longrightarrow>
   (\<And>q. k q = (if q \<in> P then None else cleanup_of (resources s) q)) \<Longrightarrow>
   (\<And>q. q \<in> P \<Longrightarrow> c q = 0) \<Longrightarrow>
   timely c k tr \<and>
   (\<forall>q. counts_after c tr q = count_of (resources s') q) \<and>
   (\<forall>q. cleanups_after k tr q = (if q \<in> P then None else cleanup_of (resources s') q)) \<and>
   (\<forall>q. map_of (resources s) q = None \<longrightarrow> map_of (resources s') q = None) \<and>
   (\<forall>q f. RunCleanup q f \<in> set tr \<longrightarrow> map_of (resources s') q = None)"
proof (induction n r s and n ds s arbitrary: s' tr c k P and s' tr c k P
    rule: check_delete_check_delete_dependents.induct)
  case (1 r s)
  then show ?case by simp
next
  case (2 n r s)
  note c = 2(6) and k = 2(7) and z = 2(8)
  from 2(2) show ?case
  proof (cases rule: check_delete_SucE)
    case (keep info)
    with 2(3) have "tr = []" by simp
    with keep c k show ?thesis by simp
  next
    case (del info f s1)
    let ?s0 = "emit (RunCleanup r f) s"
    from cascade_frame(2)[OF del(4)] obtain tr' where t': "trace s1 = trace ?s0 @ tr'" by blast
    with 2(3) del(5) have tr: "tr = RunCleanup r f # tr'" by (simp add: emit_def)
    with 2(4) have st: "sound_decrements tr'" by (simp add: sound_decrements_simps)
    have r0: "resources ?s0 = resources s" by (simp add: emit_def)
    have cr: "c r = 0" using c[of r] del(1,2) by (simp add: count_of_def)
    have kr: "k r = Some f" using k[of r] 2(5) del(1,3) by (simp add: cleanup_of_def)
    have c0: "\<And>q. c q = count_of (resources ?s0) q" using c by (simp add: r0)
    have k0: "\<And>q. (k(r := None)) q = (if q \<in> insert r P then None else cleanup_of (resources ?s0) q)"
      using k by (simp add: r0)
    have z0: "\<And>q. q \<in> insert r P \<Longrightarrow> c q = 0" using z cr by auto
    note ih = 2(1)[OF del(1,2,3,4) t' st c0 k0 z0]
    have rs': "resources s' = AList.delete r (resources s1)" using del(5) by simp
    from ih have "counts_after c tr' r = count_of (resources s1) r" by blast
    with counts_after_le[of c tr' r] cr have cs1: "count_of (resources s1) r = 0" by simp
    show ?thesis
    proof (intro conjI allI impI)
      from ih cr kr show "timely c k tr" by (simp add: tr fun_upd_def)
    next
      fix q
      from ih cs1 show "counts_after c tr q = count_of (resources s') q"
        by (simp add: tr rs' count_of_delete)
    next
      fix q
      from ih 2(5) show "cleanups_after k tr q = (if q \<in> P then None else cleanup_of (resources s') q)"
        by (simp add: tr rs' cleanup_of_delete fun_upd_def)
    next
      fix q
      assume "map_of (resources s) q = None"
      with ih show "map_of (resources s') q = None" by (simp add: rs' r0 AList.delete_conv')
    next
      fix q g
      assume "RunCleanup q g \<in> set tr"
      with ih show "map_of (resources s') q = None" by (auto simp: tr rs' AList.delete_conv')
    qed
  qed
next
  case (3 n s)
  then show ?case by simp
next
  case (4 n d ds s)
  note c = 4(6) and k = 4(7) and z = 4(8)
  from 4(3) obtain s1 where s1: "check_delete n d (decrement d s) = Inr s1"
    and s': "check_delete_dependents n ds s1 = Inr s'"
    by (rule check_delete_dependents_ConsE)
  let ?x = "dependency_count (resources_at s d)"
  let ?sa = "decrement d s"
  have ta: "trace ?sa = trace s @ [Decrement d ?x]"
    by (simp add: decrement_def emit_def modify_resource_def)
  from cascade_frame(1)[OF s1] obtain tb where tb: "trace s1 = trace ?sa @ tb" by blast
  from cascade_frame(2)[OF s'] obtain tc where tc: "trace s' = trace s1 @ tc" by blast
  from 4(4) ta tb tc have tr: "tr = Decrement d ?x # tb @ tc" by simp
  from 4(5) tr have x: "?x \<noteq> 0" and sb: "sound_decrements tb" and sc: "sound_decrements tc"
    by (simp_all add: sound_decrements_simps)
  from x obtain i where i: "map_of (resources s) d = Some i" "dependency_count i = ?x"
    by (auto simp: resources_at_def default_dependency_info_def split: option.splits)
  have cd: "c d = unat ?x" using c[of d] by (simp add: count_of_resources_at)
  have pos: "0 < c d" using x cd by (simp add: unat_gt_0)
  have dP: "d \<notin> P" using z[of d] pos by auto
  have ra: "resources ?sa = AList.update d (i\<lparr>dependency_count := ?x - 1\<rparr>) (resources s)"
    using resources_decrement[OF i(1)] i(2) by (simp add: emit_def)
  have ca: "\<And>q. (c(d := c d - 1)) q = count_of (resources ?sa) q"
    using c x cd by (simp add: ra count_of_def AList.update_conv' unat_minus_one)
  have ka: "\<And>q. k q = (if q \<in> P then None else cleanup_of (resources ?sa) q)"
    using k i by (auto simp: ra cleanup_of_def AList.update_conv')
  have za: "\<And>q. q \<in> P \<Longrightarrow> (c(d := c d - 1)) q = 0" using z by auto
  note ih1 = 4(1)[OF s1 tb sb dP ca ka za]
  let ?cb = "counts_after (c(d := c d - 1)) tb" and ?kb = "cleanups_after k tb"
  from ih1 have cb: "\<And>q. ?cb q = count_of (resources s1) q" by blast
  from ih1 have kb: "\<And>q. ?kb q = (if q \<in> P then None else cleanup_of (resources s1) q)" by blast
  have zb: "\<And>q. q \<in> P \<Longrightarrow> ?cb q = 0"
  proof -
    fix q assume "q \<in> P"
    with za have "(c(d := c d - 1)) q = 0" by blast
    with counts_after_le[of "c(d := c d - 1)" tb q] show "?cb q = 0" by simp
  qed
  note ih2 = 4(2)[OF s1 s' tc sc cb kb zb]
  have keep: "map_of (resources s) q = None \<Longrightarrow> map_of (resources ?sa) q = None" for q
    using i by (auto simp: ra AList.update_conv')
  from ih1 have t1: "timely (c(d := c d - 1)) k tb" by blast
  from ih2 have t2: "timely ?cb ?kb tc" by blast
  from ih2 have c2: "\<And>q. counts_after ?cb tc q = count_of (resources s') q" by blast
  from ih2 have k2: "\<And>q. cleanups_after ?kb tc q = (if q \<in> P then None else cleanup_of (resources s') q)"
    by blast
  show ?case
  proof (intro conjI allI impI)
    from t1 t2 cd pos show "timely c k tr" by (simp add: tr timely_append)
  next
    fix q
    from c2[of q] show "counts_after c tr q = count_of (resources s') q"
      by (simp add: tr counts_after_append)
  next
    fix q
    from k2[of q] show "cleanups_after k tr q = (if q \<in> P then None else cleanup_of (resources s') q)"
      by (simp add: tr cleanups_after_append)
  next
    fix q
    assume "map_of (resources s) q = None"
    from keep[OF this] ih1 ih2 show "map_of (resources s') q = None" by blast
  next
    fix q g
    assume "RunCleanup q g \<in> set tr"
    then have "RunCleanup q g \<in> set tb \<or> RunCleanup q g \<in> set tc" by (simp add: tr)
    with ih1 ih2 show "map_of (resources s') q = None" by blast
  qed
qed

lemma replays_refl: "replays R [] R"
  by (simp add: replays_def)

lemma replays_trans:
  assumes "replays R tr R1" "replays R1 tr' R2"
  shows "replays R (tr @ tr') R2"
  using assms by (auto simp: replays_def timely_append counts_after_append cleanups_after_append)

lemma replays_event: "\<not> cascade_event e \<Longrightarrow> replays R [e] R"
  by (cases e) (simp_all add: replays_def)

lemma check_delete_replays:
  assumes "check_delete n r s = Inr s'" "trace s' = trace s @ tr" "sound_decrements tr"
  shows "replays (resources s) tr (resources s')"
proof -
  from cascade_replay(1)[OF assms, of "{}" "count_of (resources s)" "cleanup_of (resources s)"]
  show ?thesis unfolding replays_def by (intro conjI ext) simp_all
qed

lemma replays_decrement:
  assumes "dependency_count (resources_at s d) \<noteq> 0"
  shows "replays (resources s) [Decrement d (dependency_count (resources_at s d))] (resources (decrement d s))"
proof -
  let ?x = "dependency_count (resources_at s d)"
  from assms obtain i where i: "map_of (resources s) d = Some i" "dependency_count i = ?x"
    by (auto simp: resources_at_def default_dependency_info_def split: option.splits)
  have ra: "resources (decrement d s) = AList.update d (i\<lparr>dependency_count := ?x - 1\<rparr>) (resources s)"
    using resources_decrement[OF i(1)] i(2) by (simp add: emit_def)
  have cd: "count_of (resources s) d = unat ?x" by (simp add: count_of_resources_at)
  show ?thesis
    unfolding replays_def
  proof (intro conjI ext allI impI)
    from assms cd show "timely (count_of (resources s)) (cleanup_of (resources s)) [Decrement d ?x]"
      by (simp add: unat_gt_0)
  next
    fix q
    from assms cd show "counts_after (count_of (resources s)) [Decrement d ?x] q = count_of (resources (decrement d s)) q"
      by (simp add: ra count_of_def AList.update_conv' unat_minus_one)
  next
    fix q
    from i show "cleanups_after (cleanup_of (resources s)) [Decrement d ?x] q = cleanup_of (resources (decrement d s)) q"
      by (simp add: ra cleanup_of_def AList.update_conv')
  next
    fix q
    assume "map_of (resources s) q = None"
    with i show "map_of (resources (decrement d s)) q = None"
      by (auto simp: ra AList.update_conv')
  next
    fix q f
    assume "RunCleanup q f \<in> set [Decrement d ?x]"
    then show "map_of (resources (decrement d s)) q = None" by simp
  qed
qed

lemma fire_replays:
  assumes f: "fire n t s = Inr s'" and t: "trace s' = trace s @ tr" and so: "sound_decrements tr"
  shows "replays (resources s) tr (resources s')"
proof -
  define s1 where "s1 = (case callback t of None \<Rightarrow> s | Some f \<Rightarrow> emit (RunCallback f) s)"
  define ta where "ta = (case callback t of None \<Rightarrow> [] | Some f \<Rightarrow> [RunCallback f])"
  have r1: "resources s1 = resources s" and t1: "trace s1 = trace s @ ta"
    by (simp_all add: s1_def ta_def emit_def split: option.splits)
  have p1: "replays (resources s) ta (resources s)"
    by (simp add: ta_def replays_refl replays_event split: option.splits)
  show ?thesis
  proof (cases "dependent t = nullptr")
    case True
    with f have "s' = s1" by (simp add: fire_def s1_def)
    with t t1 p1 r1 show ?thesis by simp
  next
    case False
    let ?d = "dependent t"
    let ?x = "dependency_count (resources_at s1 ?d)"
    from False f have c: "check_delete n ?d (decrement ?d s1) = Inr s'"
      by (simp add: fire_def s1_def Let_def)
    have td: "trace (decrement ?d s1) = trace s1 @ [Decrement ?d ?x]"
      by (simp add: decrement_def emit_def modify_resource_def)
    from cascade_frame(1)[OF c] obtain tc where tc: "trace s' = trace (decrement ?d s1) @ tc" by blast
    from t t1 td tc have tr: "tr = ta @ [Decrement ?d ?x] @ tc" by simp
    with so have x: "?x \<noteq> 0" and sc: "sound_decrements tc" by (simp_all add: sound_decrements_simps)
    from replays_decrement[OF x] check_delete_replays[OF c tc sc]
    have "replays (resources s1) ([Decrement ?d ?x] @ tc) (resources s')" by (rule replays_trans)
    with p1 show ?thesis unfolding tr r1 by (rule replays_trans)
  qed
qed

lemma fire_triggers_replays:
  "fire_triggers n v ts s = Inr (ts', s') \<Longrightarrow> trace s' = trace s @ tr \<Longrightarrow> sound_decrements tr \<Longrightarrow>
   replays (resources s) tr (resources s')"
proof (induction ts arbitrary: s tr)
  case Nil
  then show ?case by (simp add: replays_refl)
next
  case (Cons t ts)
  show ?case
  proof (cases "trigger_value t \<le> v")
    case False
    with Cons.prems show ?thesis by (simp add: replays_refl)
  next
    case True
    with Cons.prems obtain s1 where s1: "fire n t s = Inr s1"
      and r: "fire_triggers n v ts s1 = Inr (ts', s')"
      by (auto split: sum.splits)
    from fire_frame[OF s1] obtain ta where ta: "trace s1 = trace s @ ta" by blast
    from fire_triggers_frame[OF r] obtain tb where tb: "trace s' = trace s1 @ tb" by blast
    from Cons.prems(2) ta tb have tr: "tr = ta @ tb" by simp
    with Cons.prems(3) have sa: "sound_decrements ta" and sb: "sound_decrements tb"
      by (simp_all add: sound_decrements_simps)
    from fire_replays[OF s1 ta sa] Cons.IH[OF r tb sb] show ?thesis
      unfolding tr by (rule replays_trans)
  qed
qed

lemma collect_loop_replays:
  "collect_loop n vals S s = Inr (kept, s') \<Longrightarrow> trace s' = trace s @ tr \<Longrightarrow> sound_decrements tr \<Longrightarrow>
   replays (resources s) tr (resources s')"
proof (induction S arbitrary: s kept tr)
  case Nil
  then show ?case by (simp add: replays_refl)
next
  case (Cons x S)
  obtain sem info where x: "x = (sem, info)" by (cases x)
  from Cons.prems x obtain ts s1 where f: "fire_triggers n (vals sem) (triggers info) s = Inr (ts, s1)"
    by (auto split: sum.splits)
  from fire_triggers_frame[OF f] obtain ta where ta: "trace s1 = trace s @ ta" by blast
  show ?case
  proof (cases "ts = [] \<and> should_destroy info")
    case True
    let ?s1' = "emit (DestroySemaphore sem) s1"
    from True Cons.prems x f have k: "collect_loop n vals S ?s1' = Inr (kept, s')"
      by simp
    from collect_loop_frame[OF k] obtain tb where tb: "trace s' = trace ?s1' @ tb" by blast
    from Cons.prems(2) ta tb have tr: "tr = ta @ [DestroySemaphore sem] @ tb" by (simp add: emit_def)
    with Cons.prems(3) have sa: "sound_decrements ta" and sb: "sound_decrements tb"
      by (auto simp: sound_decrements_def)
    have r1': "resources ?s1' = resources s1" by (simp add: emit_def)
    have "replays (resources s1) [DestroySemaphore sem] (resources s1)" by (simp add: replays_event)
    from this Cons.IH[OF k tb sb, unfolded r1']
    have "replays (resources s1) ([DestroySemaphore sem] @ tb) (resources s')" by (rule replays_trans)
    with fire_triggers_replays[OF f ta sa] show ?thesis unfolding tr by (rule replays_trans)
  next
    case False
    with Cons.prems x f obtain kept' where k: "collect_loop n vals S s1 = Inr (kept', s')"
      by (auto split: sum.splits)
    from collect_loop_frame[OF k] obtain tb where tb: "trace s' = trace s1 @ tb" by blast
    from Cons.prems(2) ta tb have tr: "tr = ta @ tb" by simp
    with Cons.prems(3) have sa: "sound_decrements ta" and sb: "sound_decrements tb"
      by (simp_all add: sound_decrements_simps)
    from fire_triggers_replays[OF f ta sa] Cons.IH[OF k tb sb] show ?thesis
      unfolding tr by (rule replays_trans)
  qed
qed

lemma replays_lock_events:
  "set tr \<subseteq> {MutexLock, MutexUnlock, DeviceWaitIdle} \<Longrightarrow> replays R tr R"
proof (induction tr)
  case Nil
  then show ?case by (simp add: replays_refl)
next
  case (Cons e tr)
  then have "replays R [e] R" "replays R tr R" by (auto simp: replays_event)
  then have "replays R ([e] @ tr) R" by (rule replays_trans)
  then show ?case by simp
qed

lemma collect_replays:
  assumes c: "collect n vals s = Inr s'" and t: "trace s' = trace s @ tr" and so: "sound_decrements tr"
  shows "replays (resources s) tr (resources s')"
proof -
  let ?s1 = "emit MutexLock (s\<lparr>mutex_locked := True\<rparr>)"
  from c obtain kept s2 where
    l: "collect_loop n vals (semaphore_dependencies s) ?s1 = Inr (kept, s2)"
    and s': "s' = unlock (s2\<lparr>semaphore_dependencies := kept\<rparr>)"
    by (auto simp: collect_def lock_def emit_def split: sum.splits if_splits)
  from collect_loop_frame[OF l] obtain tb where tb: "trace s2 = trace ?s1 @ tb" by blast
  from t s' tb have tr: "tr = [MutexLock] @ tb @ [MutexUnlock]" by (simp add: unlock_def emit_def)
  with so have sb: "sound_decrements tb" by (auto simp: sound_decrements_def)
  have r: "resources ?s1 = resources s" "resources s' = resources s2"
    by (simp_all add: s' unlock_def emit_def)
  have "replays (resources s) [MutexLock] (resources s)" by (simp add: replays_event)
  moreover note collect_loop_replays[OF l tb sb, unfolded r(1)]
  moreover have "replays (resources s2) [MutexUnlock] (resources s2)" by (simp add: replays_event)
  ultimately show ?thesis unfolding tr r(2) by (intro replays_trans)
qed

lemma wait_collect_replays:
  assumes w: "wait_collect n vals vals' s = Inr s'" and t: "trace s' = trace s @ tr"
    and so: "sound_decrements tr"
  shows "replays (resources s) tr (resources s')"
proof -
  from w obtain s1 where c: "collect n vals s = Inr s1"
    by (auto simp: wait_collect_def split: sum.splits)
  from collect_trace[OF c] obtain ta where ta: "trace s1 = trace s @ ta" and l1: "\<not> mutex_locked s1"
    by auto
  let ?sl = "emit MutexLock (s1\<lparr>mutex_locked := True\<rparr>)"
  have lk: "lock s1 = Inr ?sl" using l1 by (simp add: lock_def)
  show ?thesis
  proof (cases "resources s1 \<noteq> [] \<or> semaphore_dependencies s1 \<noteq> []")
    case False
    with w c lk have s': "s' = unlock ?sl" by (simp add: wait_collect_def emit_def)
    with t ta have tr: "tr = ta @ [MutexLock, MutexUnlock]" by (simp add: unlock_def emit_def)
    with so have sa: "sound_decrements ta" by (simp add: sound_decrements_simps)
    have r: "resources s' = resources s1" by (simp add: s' unlock_def emit_def)
    from collect_replays[OF c ta sa] replays_lock_events[of "[MutexLock, MutexUnlock]" "resources s1"]
    show ?thesis unfolding tr r by (intro replays_trans) simp_all
  next
    case True
    let ?s2 = "unlock (emit DeviceWaitIdle ?sl)"
    from True w c lk have c2: "collect n vals' ?s2 = Inr s'" by (simp add: wait_collect_def emit_def)
    from collect_trace[OF c2] obtain tb where tb: "trace s' = trace ?s2 @ tb" by auto
    from t ta tb have tr: "tr = ta @ [MutexLock, DeviceWaitIdle, MutexUnlock] @ tb"
      by (simp add: unlock_def emit_def)
    with so have sa: "sound_decrements ta" and sb: "sound_decrements tb"
      by (auto simp: sound_decrements_def)
    have r: "resources ?s2 = resources s1" by (simp add: unlock_def emit_def)
    from collect_replays[OF c ta sa]
      replays_lock_events[of "[MutexLock, DeviceWaitIdle, MutexUnlock]" "resources s1"]
      collect_replays[OF c2 tb sb, unfolded r]
    show ?thesis unfolding tr by (intro replays_trans) simp_all
  qed
qed

lemma run_snoc:
  "run n (xs @ [x]) s = (case run n xs s of Inl e \<Rightarrow> Inl e | Inr s' \<Rightarrow> step n x s')"
  by (induction xs arbitrary: s) (auto split: sum.splits)

lemma count_of_set_cleanup:
  "count_of (resources (modify_resource r (\<lambda>i. i\<lparr>cleanup := f\<rparr>) s)) = count_of (resources s)"
  by (auto simp: fun_eq_iff count_of_def modify_resource_def resources_at_def AList.update_conv'
      default_dependency_info_def split: option.splits)

lemma cleanup_of_set_cleanup:
  "cleanup_of (resources (modify_resource r (\<lambda>i. i\<lparr>cleanup := f\<rparr>) s)) = (cleanup_of (resources s))(r := f)"
  by (auto simp: fun_eq_iff cleanup_of_def modify_resource_def resources_at_def AList.update_conv'
      split: option.splits)

lemma release_parts:
  assumes "release n r f s = Inr s'"
  obtains s2 tr where "\<not> mutex_locked s"
    "check_delete n r (modify_resource r (\<lambda>i. i\<lparr>cleanup := f\<rparr>) (emit MutexLock (s\<lparr>mutex_locked := True\<rparr>))) = Inr s2"
    "trace s2 = trace s @ MutexLock # tr" "s' = unlock s2" "trace s' = trace s @ MutexLock # tr @ [MutexUnlock]"
proof -
  let ?sm = "modify_resource r (\<lambda>i. i\<lparr>cleanup := f\<rparr>) (emit MutexLock (s\<lparr>mutex_locked := True\<rparr>))"
  from assms have l: "\<not> mutex_locked s" by (auto simp: release_def lock_def split: if_splits)
  with assms obtain s2 where c: "check_delete n r ?sm = Inr s2" and s': "s' = unlock s2"
    by (auto simp: release_def lock_def split: sum.splits)
  from cascade_frame(1)[OF c] obtain tr where "trace s2 = trace ?sm @ tr" by blast
  then have t: "trace s2 = trace s @ MutexLock # tr" by (simp add: modify_resource_def emit_def)
  with s' have "trace s' = trace s @ MutexLock # tr @ [MutexUnlock]" by (simp add: unlock_def emit_def)
  with l c t s' show ?thesis by (rule that)
qed

lemma release_timely:
  assumes r: "release n r f s = Inr s'" and t: "trace s' = trace s @ tr" and so: "sound_decrements tr"
  shows "timely (count_of (resources s)) ((cleanup_of (resources s))(r := f)) tr \<and>
    (\<forall>q g. RunCleanup q g \<in> set tr \<longrightarrow> map_of (resources s') q = None)"
proof -
  let ?sm = "modify_resource r (\<lambda>i. i\<lparr>cleanup := f\<rparr>) (emit MutexLock (s\<lparr>mutex_locked := True\<rparr>))"
  from r obtain s2 tc where c: "check_delete n r ?sm = Inr s2"
    and t2: "trace s2 = trace s @ MutexLock # tc" and s': "s' = unlock s2"
    and t': "trace s' = trace s @ MutexLock # tc @ [MutexUnlock]"
    by (rule release_parts)
  from t t' have tr: "tr = MutexLock # tc @ [MutexUnlock]" by simp
  with so have sc: "sound_decrements tc" by (auto simp: sound_decrements_def)
  have tm: "trace s2 = trace ?sm @ tc" using t2 by (simp add: modify_resource_def emit_def)
  have cm: "count_of (resources ?sm) = count_of (resources s)"
    by (simp add: count_of_set_cleanup emit_def)
  have km: "cleanup_of (resources ?sm) = (cleanup_of (resources s))(r := f)"
    by (simp add: cleanup_of_set_cleanup emit_def)
  from check_delete_replays[OF c tm sc]
  have "timely (count_of (resources s)) ((cleanup_of (resources s))(r := f)) tc"
    and "\<forall>q g. RunCleanup q g \<in> set tc \<longrightarrow> map_of (resources s2) q = None"
    unfolding replays_def cm km by blast+
  then show ?thesis by (simp add: tr timely_append s' unlock_def emit_def)
qed

lemma lock_only:
  "release_semaphore sem s = Inr s' \<Longrightarrow> trace s' = trace s @ [MutexLock, MutexUnlock]"
  "depend_many us user s = Inr s' \<Longrightarrow> trace s' = trace s @ [MutexLock, MutexUnlock]"
  "depend used user s = Inr s' \<Longrightarrow> trace s' = trace s @ [MutexLock, MutexUnlock]"
  "depend_timeline used sem v s = Inr s' \<Longrightarrow> trace s' = trace s @ [MutexLock, MutexUnlock]"
  "add_trigger sem v f s = Inr s' \<Longrightarrow> trace s' = trace s @ [MutexLock, MutexUnlock]"
  by (auto simp: release_semaphore_def depend_def depend_many_def depend_timeline_def add_trigger_def
      lock_def unlock_def emit_def modify_semaphore_def increment_def modify_resource_def
      fold_increment_frame split: if_splits)

lemma step_trace: "step n x s = Inr s' \<Longrightarrow> \<exists>tr. trace s' = trace s @ tr"
proof (cases x)
  case (Release r f)
  assume "step n x s = Inr s'"
  with Release have "release n r f s = Inr s'" by simp
  then show ?thesis by (rule release_parts) blast
next
  case (Collect vals)
  assume "step n x s = Inr s'"
  with Collect collect_trace[of n vals s s'] show ?thesis by auto
next
  case (WaitCollect vals vals')
  assume "step n x s = Inr s'"
  with WaitCollect have w: "wait_collect n vals vals' s = Inr s'" by simp
  then obtain s1 where c: "collect n vals s = Inr s1"
    by (auto simp: wait_collect_def split: sum.splits)
  from collect_trace[OF c] obtain ta where ta: "trace s1 = trace s @ ta" and l1: "\<not> mutex_locked s1"
    by auto
  show ?thesis
  proof (cases "resources s1 \<noteq> [] \<or> semaphore_dependencies s1 \<noteq> []")
    case False
    with w c l1 have "s' = unlock (emit MutexLock (s1\<lparr>mutex_locked := True\<rparr>))"
      by (simp add: wait_collect_def lock_def emit_def)
    with ta show ?thesis by (simp add: unlock_def emit_def)
  next
    case True
    let ?s2 = "unlock (emit DeviceWaitIdle (emit MutexLock (s1\<lparr>mutex_locked := True\<rparr>)))"
    from True w c l1 have "collect n vals' ?s2 = Inr s'"
      by (simp add: wait_collect_def lock_def emit_def)
    from collect_trace[OF this] ta show ?thesis by (auto simp: unlock_def emit_def)
  qed
qed (auto dest: lock_only)

lemma step_timely:
  assumes st: "step n x s = Inr s'" and t: "trace s' = trace s @ tr" and so: "sound_decrements tr"
  shows "timely (count_of (resources s)) (cleanup_at x (resources s)) tr \<and>
    (\<forall>q g. RunCleanup q g \<in> set tr \<longrightarrow> map_of (resources s') q = None)"
proof (cases x)
  case (Release r f)
  with st have "release n r f s = Inr s'" by simp
  from release_timely[OF this t so] Release show ?thesis by simp
next
  case (ReleaseSemaphore sem)
  with st lock_only(1)[of sem s s'] t show ?thesis by simp
next
  case (Depend used user)
  with st lock_only(3)[of used user s s'] t show ?thesis by simp
next
  case (DependMany us user)
  with st lock_only(2)[of us user s s'] t show ?thesis by simp
next
  case (DependTimeline used sem v)
  with st lock_only(4)[of used sem v s s'] t show ?thesis by simp
next
  case (AddTrigger sem v f)
  with st lock_only(5)[of sem v f s s'] t show ?thesis by simp
next
  case (Collect vals)
  with st have "collect n vals s = Inr s'" by simp
  from collect_replays[OF this t so] Collect show ?thesis by (simp add: replays_def)
next
  case (WaitCollect vals vals')
  with st have "wait_collect n vals vals' s = Inr s'" by simp
  from wait_collect_replays[OF this t so] WaitCollect show ?thesis by (simp add: replays_def)
qed

lemma release_kept:
  assumes r: "release n r g s = Inr s'" and k: "count_of (resources s) r \<noteq> 0 \<or> g = None"
  shows "map_of (resources s') = (map_of (resources s))(r \<mapsto> (resources_at s r)\<lparr>cleanup := g\<rparr>) \<and>
    trace s' = trace s @ [MutexLock, MutexUnlock]"
proof -
  let ?s1 = "emit MutexLock (s\<lparr>mutex_locked := True\<rparr>)"
  let ?sm = "modify_resource r (\<lambda>i. i\<lparr>cleanup := g\<rparr>) ?s1"
  from r obtain s2 tc where c: "check_delete n r ?sm = Inr s2" and s': "s' = unlock s2"
    by (rule release_parts)
  from c obtain m where n: "n = Suc m" by (cases n) auto
  have m: "map_of (resources ?sm) r = Some ((resources_at s r)\<lparr>cleanup := g\<rparr>)"
    by (simp add: map_of_modify_resource resources_at_simps)
  from k have "\<not> eligible ((resources_at s r)\<lparr>cleanup := g\<rparr>)"
    by (auto simp: eligible_def count_of_resources_at unat_eq_0)
  from check_delete_not_eligible[OF m this, of m] c n have "s2 = ?sm" by simp
  with s' show ?thesis
    by (simp add: unlock_def emit_def resources_at_simps modify_resource_def AList.update_conv')
qed

lemma release_deleted:
  assumes r: "release n r (Some f) s = Inr s'" and z: "count_of (resources s) r = 0"
  shows "map_of (resources s') r = None \<and>
    (\<exists>tr. trace s' = trace s @ MutexLock # RunCleanup r f # tr @ [MutexUnlock])"
proof -
  let ?s1 = "emit MutexLock (s\<lparr>mutex_locked := True\<rparr>)"
  let ?sm = "modify_resource r (\<lambda>i. i\<lparr>cleanup := Some f\<rparr>) ?s1"
  from r obtain s2 tc where c: "check_delete n r ?sm = Inr s2" and s': "s' = unlock s2"
    by (rule release_parts)
  from c obtain m where n: "n = Suc m" by (cases n) auto
  have m: "map_of (resources ?sm) r = Some ((resources_at s r)\<lparr>cleanup := Some f\<rparr>)"
    by (simp add: map_of_modify_resource resources_at_simps)
  from z have "dependency_count ((resources_at s r)\<lparr>cleanup := Some f\<rparr>) = 0"
    by (simp add: count_of_resources_at unat_eq_0)
  from check_delete_eligible[OF m this _ c[unfolded n]]
  have "map_of (resources s2) r = None" "\<exists>tr. trace s2 = trace ?sm @ RunCleanup r f # tr" by simp_all
  with s' show ?thesis by (auto simp: unlock_def emit_def modify_resource_def)
qed

text \<open>
  Claim C1. Take any step of a bounded run, from the state \<open>s\<close> to \<open>s'\<close>. It
  returns when the stack is deep enough, and the events it adds to the trace are timely
  from the counts of \<open>s\<close> and the cleanups set: every cleanup runs when the count of its
  resource has come down to 0, never above, is the one set for the resource, and runs once.
  The resources cleaned up have no record in \<open>s'\<close>, and no record of \<open>s'\<close> is left
  with count 0 and a cleanup set. Over the run, the cleanup of a resource has run at most
  as many times as \<open>release\<close> has set one for it, less one when one is still set. A
  \<open>release\<close> on a resource whose count is above 0, or with an empty cleanup, writes the
  cleanup and runs nothing; on a count of 0 it runs the cleanup at once and the record is
  gone. \<open>check_delete\<close> leaves the state as it is when the record has a count above 0 or
  no cleanup; when the count is 0 and a cleanup is set, it runs the cleanup first and the
  record is gone when it returns.
\<close>

theorem deletion_exactly_when_eligible:
  "(bounded xs \<longrightarrow>
      (release_ops xs < n \<longrightarrow> (\<exists>s. run n xs init = Inr s)) \<and>
      (\<forall>s. run n xs init = Inr s \<longrightarrow>
         (\<forall>r i. map_of (resources s) r = Some i \<longrightarrow> \<not> eligible i) \<and>
         (\<forall>r. cleaned (trace s) r + awaiting {} (resources s) r \<le> release_count xs r))) \<and>
   (bounded (xs @ [x]) \<longrightarrow> run n xs init = Inr s \<longrightarrow>
      (release_ops (xs @ [x]) < n \<longrightarrow> (\<exists>s'. step n x s = Inr s')) \<and>
      (\<forall>s'. step n x s = Inr s' \<longrightarrow>
         (\<exists>tr. trace s' = trace s @ tr \<and>
            timely (count_of (resources s)) (cleanup_at x (resources s)) tr \<and>
            (\<forall>q f. RunCleanup q f \<in> set tr \<longrightarrow> map_of (resources s') q = None)) \<and>
         (\<forall>q i. map_of (resources s') q = Some i \<longrightarrow> \<not> eligible i))) \<and>
   (\<forall>s'. release n r g s = Inr s' \<longrightarrow> count_of (resources s) r \<noteq> 0 \<or> g = None \<longrightarrow>
      map_of (resources s') = (map_of (resources s))(r \<mapsto> (resources_at s r)\<lparr>cleanup := g\<rparr>) \<and>
      trace s' = trace s @ [MutexLock, MutexUnlock]) \<and>
   (\<forall>s'. release n r' (Some f) s = Inr s' \<longrightarrow> count_of (resources s) r' = 0 \<longrightarrow>
      map_of (resources s') r' = None \<and>
      (\<exists>tr. trace s' = trace s @ MutexLock # RunCleanup r' f # tr @ [MutexUnlock])) \<and>
   (\<forall>m r s i. map_of (resources s) r = Some i \<longrightarrow> \<not> eligible i \<longrightarrow> check_delete (Suc m) r s = Inr s) \<and>
   (\<forall>m r s i f s'. map_of (resources s) r = Some i \<longrightarrow> dependency_count i = 0 \<longrightarrow> cleanup i = Some f \<longrightarrow>
       check_delete (Suc m) r s = Inr s' \<longrightarrow>
       map_of (resources s') r = None \<and> (\<exists>tr. trace s' = trace s @ RunCleanup r f # tr))"
proof (intro conjI impI allI)
  assume "bounded xs" "release_ops xs < n"
  with run_consistent show "\<exists>s. run n xs init = Inr s" by blast
next
  fix s r i
  assume "bounded xs" "run n xs init = Inr s" "map_of (resources s) r = Some i"
  with consistentD(5)[OF reachable_consistent] show "\<not> eligible i"
    by (auto simp: quiescent_def)
next
  fix s r
  assume "bounded xs" "run n xs init = Inr s"
  from consistentD(9)[OF reachable_consistent[OF this]]
  show "cleaned (trace s) r + awaiting {} (resources s) r \<le> release_count xs r" .
next
  assume b: "bounded (xs @ [x])" and r: "run n xs init = Inr s" and n: "release_ops (xs @ [x]) < n"
  from run_consistent[OF b n] r show "\<exists>s'. step n x s = Inr s'" by (auto simp: run_snoc)
next
  fix s'
  assume b: "bounded (xs @ [x])" and r: "run n xs init = Inr s" and st: "step n x s = Inr s'"
  from r st have "run n (xs @ [x]) init = Inr s'" by (simp add: run_snoc)
  with b have c: "consistent (xs @ [x]) s'" by (rule reachable_consistent)
  from step_trace[OF st] obtain tr where tr: "trace s' = trace s @ tr" by blast
  with consistentD(8)[OF c] have "sound_decrements tr" by (simp add: sound_decrements_simps)
  from step_timely[OF st tr this] tr
  show "\<exists>tr. trace s' = trace s @ tr \<and>
            timely (count_of (resources s)) (cleanup_at x (resources s)) tr \<and>
            (\<forall>q f. RunCleanup q f \<in> set tr \<longrightarrow> map_of (resources s') q = None)"
    by blast
  fix q i
  assume "map_of (resources s') q = Some i"
  with consistentD(5)[OF c] show "\<not> eligible i" by (auto simp: quiescent_def)
next
  fix s'
  assume "release n r g s = Inr s'" "count_of (resources s) r \<noteq> 0 \<or> g = None"
  then show "map_of (resources s') = (map_of (resources s))(r \<mapsto> (resources_at s r)\<lparr>cleanup := g\<rparr>)"
    "trace s' = trace s @ [MutexLock, MutexUnlock]"
    using release_kept by blast+
next
  fix s'
  assume "release n r' (Some f) s = Inr s'" "count_of (resources s) r' = 0"
  then show "map_of (resources s') r' = None"
    "\<exists>tr. trace s' = trace s @ MutexLock # RunCleanup r' f # tr @ [MutexUnlock]"
    using release_deleted by blast+
next
  fix m r i and s :: garbage_collector
  assume "map_of (resources s) r = Some i" "\<not> eligible i"
  then show "check_delete (Suc m) r s = Inr s" by (rule check_delete_not_eligible)
next
  fix m r i f and s s' :: garbage_collector
  assume "map_of (resources s) r = Some i" "dependency_count i = 0" "cleanup i = Some f"
    "check_delete (Suc m) r s = Inr s'"
  then show "map_of (resources s') r = None" "\<exists>tr. trace s' = trace s @ RunCleanup r f # tr"
    using check_delete_eligible by blast+
qed

theorem deletion_exactly_when_eligible_witness:
  "bounded [Depend 1 2, Release 1 (Some 11)] \<and>
   bounded ([Depend 1 2, Release 1 (Some 11)] @ [Release 2 (Some 12)]) \<and>
   release_ops ([Depend 1 2, Release 1 (Some 11)] @ [Release 2 (Some 12)]) < 3 \<and>
   (\<exists>s s'. run 3 [Depend 1 2, Release 1 (Some 11)] init = Inr s \<and>
      resources s = [(2, \<lparr>dependency_count = 0, dependents = [1], cleanup = None\<rparr>),
                     (1, \<lparr>dependency_count = 1, dependents = [], cleanup = Some 11\<rparr>)] \<and>
      trace s = [MutexLock, MutexUnlock, MutexLock, MutexUnlock] \<and>
      cleaned (trace s) 1 + awaiting {} (resources s) 1
        \<le> release_count [Depend 1 2, Release 1 (Some 11)] 1 \<and>
      step 3 (Release 2 (Some 12)) s = Inr s' \<and>
      trace s' = trace s @ [MutexLock, RunCleanup 2 12, Decrement 1 1, RunCleanup 1 11, MutexUnlock] \<and>
      timely (count_of (resources s)) (cleanup_at (Release 2 (Some 12)) (resources s))
        [MutexLock, RunCleanup 2 12, Decrement 1 1, RunCleanup 1 11, MutexUnlock] \<and>
      map_of (resources s') 2 = None \<and> map_of (resources s') 1 = None \<and>
      count_of (resources s) 1 \<noteq> 0 \<and>
      (\<exists>s''. release 3 1 (Some 13) s = Inr s'' \<and>
         trace s'' = trace s @ [MutexLock, MutexUnlock] \<and>
         map_of (resources s'') 1 = Some \<lparr>dependency_count = 1, dependents = [], cleanup = Some 13\<rparr>) \<and>
      count_of (resources s) 2 = 0 \<and>
      release 3 2 (Some 12) s = Inr s' \<and>
      (\<exists>tr. trace s' = trace s @ MutexLock # RunCleanup 2 12 # tr @ [MutexUnlock])) \<and>
   check_delete (Suc 0) 1
     \<lparr>resources = [(1, \<lparr>dependency_count = 1, dependents = [], cleanup = Some 11\<rparr>)],
      semaphore_dependencies = [], mutex_locked = False, trace = []\<rparr>
   = Inr \<lparr>resources = [(1, \<lparr>dependency_count = 1, dependents = [], cleanup = Some 11\<rparr>)],
      semaphore_dependencies = [], mutex_locked = False, trace = []\<rparr> \<and>
   check_delete (Suc 0) 1
     \<lparr>resources = [(1, \<lparr>dependency_count = 0, dependents = [], cleanup = Some 11\<rparr>)],
      semaphore_dependencies = [], mutex_locked = False, trace = []\<rparr>
   = Inr \<lparr>resources = [], semaphore_dependencies = [], mutex_locked = False,
          trace = [RunCleanup 1 11]\<rparr>"
proof -
  let ?xs = "[Depend 1 2, Release 1 (Some 11)]"
  let ?x = "Release 2 (Some 12)"
  let ?s = "\<lparr>resources = [(2, \<lparr>dependency_count = 0, dependents = [1], cleanup = None\<rparr>),
                     (1, \<lparr>dependency_count = 1, dependents = [], cleanup = Some 11\<rparr>)],
      semaphore_dependencies = [], mutex_locked = False,
      trace = [MutexLock, MutexUnlock, MutexLock, MutexUnlock]\<rparr>"
  let ?s' = "\<lparr>resources = [], semaphore_dependencies = [], mutex_locked = False,
      trace = [MutexLock, MutexUnlock, MutexLock, MutexUnlock,
               MutexLock, RunCleanup 2 12, Decrement 1 1, RunCleanup 1 11, MutexUnlock]\<rparr>"
  let ?s'' = "\<lparr>resources = [(2, \<lparr>dependency_count = 0, dependents = [1], cleanup = None\<rparr>),
                     (1, \<lparr>dependency_count = 1, dependents = [], cleanup = Some 13\<rparr>)],
      semaphore_dependencies = [], mutex_locked = False,
      trace = [MutexLock, MutexUnlock, MutexLock, MutexUnlock, MutexLock, MutexUnlock]\<rparr>"
  let ?k = "\<lparr>resources = [(1, \<lparr>dependency_count = 1, dependents = [], cleanup = Some 11\<rparr>)],
      semaphore_dependencies = [], mutex_locked = False, trace = []\<rparr>"
  let ?e = "\<lparr>resources = [(1, \<lparr>dependency_count = 0, dependents = [], cleanup = Some 11\<rparr>)],
      semaphore_dependencies = [], mutex_locked = False, trace = []\<rparr>"
  have b0: "bounded ?xs" by (simp add: bounded_def registered_def)
  have b: "bounded (?xs @ [?x])" by (simp add: bounded_def registered_def)
  have n: "release_ops (?xs @ [?x]) < 3" by (simp add: release_ops_def)
  have r: "run 3 ?xs init = Inr ?s"
    by (simp add: init_def depend_def depend_many_def release_def
      lock_def unlock_def emit_def modify_resource_def resources_at_def
      increment_def decrement_def default_dependency_info_def numeral_3_eq_3)
  have st: "release 3 2 (Some 12) ?s = Inr ?s'"
    by (simp add: release_def lock_def unlock_def emit_def modify_resource_def resources_at_def
      decrement_def numeral_3_eq_3)
  have rk: "release 3 1 (Some 13) ?s = Inr ?s''"
    by (simp add: release_def lock_def unlock_def emit_def modify_resource_def resources_at_def
      numeral_3_eq_3)
  have c1: "count_of (resources ?s) 1 \<noteq> 0" and c2: "count_of (resources ?s) 2 = 0"
    by (simp_all add: count_of_def)
  have m1: "map_of (resources ?k) 1 = Some \<lparr>dependency_count = 1, dependents = [], cleanup = Some 11\<rparr>"
    and e1: "\<not> eligible \<lparr>dependency_count = 1, dependents = [], cleanup = Some 11\<rparr>"
    and m2: "map_of (resources ?e) 1 = Some \<lparr>dependency_count = 0, dependents = [], cleanup = Some 11\<rparr>"
    and e2: "check_delete (Suc 0) 1 ?e =
      Inr \<lparr>resources = [], semaphore_dependencies = [], mutex_locked = False, trace = [RunCleanup 1 11]\<rparr>"
    by (simp_all add: eligible_def emit_def)
  note t = deletion_exactly_when_eligible
    [where xs = ?xs and n = 3 and x = ?x and s = ?s and r = 1 and g = "Some 13" and r' = 2 and f = 12]
  have st': "step 3 ?x ?s = Inr ?s'" using st by simp
  note k0 = t[THEN conjunct1, THEN mp, OF b0, THEN conjunct2, THEN spec, THEN mp, OF r,
      THEN conjunct2, THEN spec, of 1]
  note t2 = t[THEN conjunct2, THEN conjunct1, THEN mp, OF b, THEN mp, OF r]
  note k1 = t2[THEN conjunct2, THEN spec, THEN mp, OF st', THEN conjunct1]
  then have k2: "timely (count_of (resources ?s)) (cleanup_at ?x (resources ?s))
      [MutexLock, RunCleanup 2 12, Decrement 1 1, RunCleanup 1 11, MutexUnlock] \<and>
      map_of (resources ?s') 2 = None \<and> map_of (resources ?s') 1 = None"
    by auto
  note k3 = t[THEN conjunct2, THEN conjunct2, THEN conjunct1, THEN spec, THEN mp, OF rk,
      THEN mp, OF disjI1[OF c1]]
  note k4 = t[THEN conjunct2, THEN conjunct2, THEN conjunct2, THEN conjunct1, THEN spec, THEN mp,
      OF st, THEN mp, OF c2, THEN conjunct2]
  note k5 = t[THEN conjunct2, THEN conjunct2, THEN conjunct2, THEN conjunct2, THEN conjunct1,
      rule_format, OF m1 e1, of 0]
  from k3 have k3': "trace ?s'' = trace ?s @ [MutexLock, MutexUnlock] \<and>
      map_of (resources ?s'') 1 = Some \<lparr>dependency_count = 1, dependents = [], cleanup = Some 13\<rparr>"
    by (simp add: resources_at_def)
  have "run 3 ?xs init = Inr ?s \<and>
      resources ?s = [(2, \<lparr>dependency_count = 0, dependents = [1], cleanup = None\<rparr>),
                     (1, \<lparr>dependency_count = 1, dependents = [], cleanup = Some 11\<rparr>)] \<and>
      trace ?s = [MutexLock, MutexUnlock, MutexLock, MutexUnlock] \<and>
      step 3 ?x ?s = Inr ?s' \<and>
      trace ?s' = trace ?s @ [MutexLock, RunCleanup 2 12, Decrement 1 1, RunCleanup 1 11, MutexUnlock]"
    using r st by simp
  with b0 b n k0 k2 k3' k4 k5 e2 c1 c2 rk st show ?thesis by blast
qed

section \<open>The events of \<open>collect\<close>\<close>

lemma visible_simps:
  "visible [] = []"
  "visible (tr @ tr') = visible tr @ visible tr'"
  "visible (e # tr) = (if cascade_event e then visible tr else e # visible tr)"
  by (simp_all add: visible_def)

lemma visible_cascade: "\<forall>e \<in> set tr. cascade_event e \<Longrightarrow> visible tr = []"
  by (simp add: visible_def)

lemma cascade_visible:
  "check_delete n r s = Inr s' \<Longrightarrow> visible (trace s') = visible (trace s)"
  using cascade_frame(1)[of n r s s'] by (auto simp: visible_simps visible_cascade)

lemma fire_visible:
  assumes "fire n t s = Inr s'"
  shows "visible (trace s') = visible (trace s) @ map RunCallback (callbacks [t])"
proof -
  define s1 where "s1 = (case callback t of None \<Rightarrow> s | Some f \<Rightarrow> emit (RunCallback f) s)"
  have v1: "visible (trace s1) = visible (trace s) @ map RunCallback (callbacks [t])"
    by (auto simp: s1_def emit_def visible_simps split: option.splits)
  show ?thesis
  proof (cases "dependent t = nullptr")
    case True
    with assms v1 show ?thesis by (simp add: fire_def s1_def)
  next
    case False
    with assms have "check_delete n (dependent t) (decrement (dependent t) s1) = Inr s'"
      by (simp add: fire_def s1_def Let_def)
    from cascade_visible[OF this] v1 show ?thesis
      by (simp add: decrement_def emit_def modify_resource_def visible_simps)
  qed
qed

lemma callbacks_append: "callbacks (ts @ ts') = callbacks ts @ callbacks ts'"
  by (induction ts) (auto split: option.splits)

lemma fire_triggers_visible:
  "fire_triggers n v ts s = Inr (ts', s') \<Longrightarrow>
   visible (trace s') = visible (trace s) @ map RunCallback (callbacks (ready v ts))"
proof (induction ts arbitrary: s)
  case Nil
  then show ?case by (simp add: ready_def)
next
  case (Cons t ts)
  show ?case
  proof (cases "trigger_value t \<le> v")
    case False
    with Cons.prems show ?thesis by (auto simp: ready_def)
  next
    case True
    with Cons.prems obtain s1 where s1: "fire n t s = Inr s1"
      and r: "fire_triggers n v ts s1 = Inr (ts', s')"
      by (auto split: sum.splits)
    from fire_visible[OF s1] Cons.IH[OF r] True show ?thesis
      using callbacks_append[of "[t]" "ready v ts"] by (simp add: ready_def)
  qed
qed

lemma collect_loop_visible:
  "collect_loop n vals S s = Inr (kept, s') \<Longrightarrow>
   visible (trace s') = visible (trace s) @ collect_events vals S"
proof (induction S arbitrary: s kept)
  case Nil
  then show ?case by simp
next
  case (Cons x S)
  obtain sem info where x: "x = (sem, info)" by (cases x)
  from Cons.prems x obtain ts s1 where f: "fire_triggers n (vals sem) (triggers info) s = Inr (ts, s1)"
    by (auto split: sum.splits)
  note ts = fire_triggers_remaining[OF f]
  note v1 = fire_triggers_visible[OF f]
  show ?case
  proof (cases "ts = [] \<and> should_destroy info")
    case True
    with Cons.prems x f have "collect_loop n vals S (emit (DestroySemaphore sem) s1) = Inr (kept, s')"
      by simp
    from Cons.IH[OF this] v1 True ts x show ?thesis
      by (simp add: emit_def visible_simps)
  next
    case False
    with Cons.prems x f obtain kept' where k: "collect_loop n vals S s1 = Inr (kept', s')"
      by (auto split: sum.splits)
    from Cons.IH[OF k] v1 False ts x show ?thesis by auto
  qed
qed

lemma collect_visible:
  assumes "collect n vals s = Inr s'"
  shows "visible (trace s') =
     visible (trace s) @ MutexLock # collect_events vals (semaphore_dependencies s) @ [MutexUnlock]"
proof -
  from assms obtain kept s2 where
    c: "collect_loop n vals (semaphore_dependencies s) (emit MutexLock (s\<lparr>mutex_locked := True\<rparr>)) = Inr (kept, s2)"
    and s': "s' = unlock (s2\<lparr>semaphore_dependencies := kept\<rparr>)"
    by (auto simp: collect_def lock_def emit_def split: sum.splits if_splits)
  from collect_loop_visible[OF c] s' show ?thesis by (simp add: unlock_def emit_def visible_simps)
qed

lemma collect_new_events:
  assumes "collect n vals s = Inr s'"
  shows "\<exists>tr. trace s' = trace s @ tr \<and>
     visible tr = MutexLock # collect_events vals (semaphore_dependencies s) @ [MutexUnlock]"
proof -
  from collect_trace[OF assms] obtain tr where t: "trace s' = trace s @ MutexLock # tr @ [MutexUnlock]"
    by blast
  with collect_visible[OF assms] have "visible (MutexLock # tr @ [MutexUnlock])
      = MutexLock # collect_events vals (semaphore_dependencies s) @ [MutexUnlock]"
    by (simp add: visible_simps)
  with t show ?thesis by blast
qed

lemma in_visible: "\<not> cascade_event e \<Longrightarrow> e \<in> set (visible tr) \<longleftrightarrow> e \<in> set tr"
  by (auto simp: visible_def)

lemma destroy_in_collect_events:
  "DestroySemaphore sem \<in> set (collect_events vals S) \<longleftrightarrow>
     (\<exists>i. (sem, i) \<in> set S \<and> remaining (vals sem) (triggers i) = [] \<and> should_destroy i)"
  by (induction S) auto


lemma map_of_collected:
  "distinct (map fst S) \<Longrightarrow>
   map_of (collected vals S) sem =
     (case map_of S sem of
        None \<Rightarrow> None
      | Some i \<Rightarrow> if remaining (vals sem) (triggers i) = [] \<and> should_destroy i then None
                  else Some (i\<lparr>triggers := remaining (vals sem) (triggers i)\<rparr>))"
proof (induction S)
  case Nil
  then show ?case by simp
next
  case (Cons x S)
  obtain k v where x: "x = (k, v)" by (cases x)
  from Cons.prems x have kS: "map_of S k = None" by (auto simp: map_of_eq_None_iff)
  then have "map_of (collected vals S) k = None"
    using keys_collected[of k _ vals S] by (auto simp: map_of_eq_None_iff)
  with Cons x kS show ?case by (auto split: option.splits)
qed

section \<open>Counters\<close>

lemma release_semaphore_effect:
  assumes "\<not> mutex_locked s"
  shows "\<exists>s'. release_semaphore sem s = Inr s' \<and>
     trace s' = trace s @ [MutexLock, MutexUnlock] \<and> resources s' = resources s \<and>
     map_of (semaphore_dependencies s') =
       (map_of (semaphore_dependencies s))(sem \<mapsto> (semaphore_at s sem)\<lparr>should_destroy := True\<rparr>)"
  using assms
  by (simp add: release_semaphore_def lock_def unlock_def emit_def modify_semaphore_def
      AList.update_conv' semaphore_at_def)

lemma collect_counter:
  assumes c: "collect n vals s = Inr s'" and d: "distinct (map fst (semaphore_dependencies s))"
  shows "case map_of (semaphore_dependencies s) sem of
      None \<Rightarrow> map_of (semaphore_dependencies s') sem = None \<and>
              DestroySemaphore sem \<notin> set (drop (length (trace s)) (trace s'))
    | Some i \<Rightarrow>
        if remaining (vals sem) (triggers i) = [] \<and> should_destroy i
        then map_of (semaphore_dependencies s') sem = None \<and>
             DestroySemaphore sem \<in> set (drop (length (trace s)) (trace s'))
        else map_of (semaphore_dependencies s') sem = Some (i\<lparr>triggers := remaining (vals sem) (triggers i)\<rparr>) \<and>
             DestroySemaphore sem \<notin> set (drop (length (trace s)) (trace s'))"
proof -
  let ?S = "semaphore_dependencies s"
  from collect_new_events[OF c] obtain tr where tr: "trace s' = trace s @ tr"
    "visible tr = MutexLock # collect_events vals ?S @ [MutexUnlock]" by blast
  have "DestroySemaphore sem \<in> set tr \<longleftrightarrow> DestroySemaphore sem \<in> set (visible tr)"
    by (simp add: in_visible)
  also have "\<dots> \<longleftrightarrow> (\<exists>i. (sem, i) \<in> set ?S \<and> remaining (vals sem) (triggers i) = [] \<and> should_destroy i)"
    by (simp add: tr(2) destroy_in_collect_events)
  also have "\<dots> \<longleftrightarrow> (\<exists>i. map_of ?S sem = Some i \<and> remaining (vals sem) (triggers i) = [] \<and> should_destroy i)"
    using d by simp
  finally have e: "DestroySemaphore sem \<in> set (drop (length (trace s)) (trace s')) \<longleftrightarrow>
      (\<exists>i. map_of ?S sem = Some i \<and> remaining (vals sem) (triggers i) = [] \<and> should_destroy i)"
    by (simp add: tr(1))
  show ?thesis
    unfolding e collect_semaphores[OF c] map_of_collected[OF d]
    by (auto split: option.splits)
qed

text \<open>
  Claim C4. \<open>release\<close> of a counter sets \<open>should_destroy\<close> in its record, creating the
  record when there is none, and does nothing else: the record is there afterwards and
  no counter is destroyed. A \<open>collect\<close> that returns removes the record of a counter and
  destroys the counter when, after its ready triggers are popped, its heap is empty and
  \<open>should_destroy\<close> is set; else it keeps the record, with the triggers that are left, and
  does not destroy the counter. In the states that a bounded run reaches the keys are
  distinct, and \<open>collect\<close> returns when it has more stack frames than the run has releases.
\<close>

theorem counter_destroyed_when_drained:
  "(\<not> mutex_locked s \<longrightarrow>
      (\<exists>s'. release_semaphore sem s = Inr s' \<and>
         trace s' = trace s @ [MutexLock, MutexUnlock] \<and> resources s' = resources s \<and>
         map_of (semaphore_dependencies s') =
           (map_of (semaphore_dependencies s))(sem \<mapsto> (semaphore_at s sem)\<lparr>should_destroy := True\<rparr>))) \<and>
   (\<forall>s'. collect n vals s = Inr s' \<longrightarrow> distinct (map fst (semaphore_dependencies s)) \<longrightarrow>
      (case map_of (semaphore_dependencies s) sem of
         None \<Rightarrow> map_of (semaphore_dependencies s') sem = None \<and>
                 DestroySemaphore sem \<notin> set (drop (length (trace s)) (trace s'))
       | Some i \<Rightarrow>
           if remaining (vals sem) (triggers i) = [] \<and> should_destroy i
           then map_of (semaphore_dependencies s') sem = None \<and>
                DestroySemaphore sem \<in> set (drop (length (trace s)) (trace s'))
           else map_of (semaphore_dependencies s') sem =
                  Some (i\<lparr>triggers := remaining (vals sem) (triggers i)\<rparr>) \<and>
                DestroySemaphore sem \<notin> set (drop (length (trace s)) (trace s')))) \<and>
   (bounded xs \<longrightarrow> run n xs init = Inr s \<longrightarrow>
      distinct (map fst (semaphore_dependencies s)) \<and>
      (release_ops xs < n \<longrightarrow> (\<exists>s'. collect n vals s = Inr s')))"
proof (intro conjI impI allI)
  assume "\<not> mutex_locked s"
  then show "\<exists>s'. release_semaphore sem s = Inr s' \<and>
         trace s' = trace s @ [MutexLock, MutexUnlock] \<and> resources s' = resources s \<and>
         map_of (semaphore_dependencies s') =
           (map_of (semaphore_dependencies s))(sem \<mapsto> (semaphore_at s sem)\<lparr>should_destroy := True\<rparr>)"
    by (rule release_semaphore_effect)
next
  fix s'
  assume "collect n vals s = Inr s'" "distinct (map fst (semaphore_dependencies s))"
  then show "case map_of (semaphore_dependencies s) sem of
         None \<Rightarrow> map_of (semaphore_dependencies s') sem = None \<and>
                 DestroySemaphore sem \<notin> set (drop (length (trace s)) (trace s'))
       | Some i \<Rightarrow>
           if remaining (vals sem) (triggers i) = [] \<and> should_destroy i
           then map_of (semaphore_dependencies s') sem = None \<and>
                DestroySemaphore sem \<in> set (drop (length (trace s)) (trace s'))
           else map_of (semaphore_dependencies s') sem =
                  Some (i\<lparr>triggers := remaining (vals sem) (triggers i)\<rparr>) \<and>
                DestroySemaphore sem \<notin> set (drop (length (trace s)) (trace s'))"
    by (rule collect_counter)
next
  assume "bounded xs" "run n xs init = Inr s"
  then have c: "consistent xs s" by (rule reachable_consistent)
  then show "distinct (map fst (semaphore_dependencies s))" by (rule consistentD(2))
  assume "release_ops xs < n"
  with consistent_collect[OF c] show "\<exists>s'. collect n vals s = Inr s'" by blast
qed

theorem counter_destroyed_when_drained_witness:
  "bounded [AddTrigger 7 5 None, ReleaseSemaphore 7, ReleaseSemaphore 8] \<and>
   (\<exists>s s'. run 0 [AddTrigger 7 5 None, ReleaseSemaphore 7, ReleaseSemaphore 8] init = Inr s \<and>
      \<not> mutex_locked s \<and> distinct (map fst (semaphore_dependencies s)) \<and>
      map_of (semaphore_dependencies s) 7 = Some \<lparr>triggers = [Trigger 5 nullptr None], should_destroy = True\<rparr> \<and>
      map_of (semaphore_dependencies s) 8 = Some \<lparr>triggers = [], should_destroy = True\<rparr> \<and>
      collect 0 (poll_all 3) s = Inr s' \<and>
      map_of (semaphore_dependencies s') 7 = Some \<lparr>triggers = [Trigger 5 nullptr None], should_destroy = True\<rparr> \<and>
      DestroySemaphore 7 \<notin> set (drop (length (trace s)) (trace s')) \<and>
      map_of (semaphore_dependencies s') 8 = None \<and>
      DestroySemaphore 8 \<in> set (drop (length (trace s)) (trace s')) \<and>
      (\<exists>s''. release_semaphore 8 s = Inr s'' \<and> trace s'' = trace s @ [MutexLock, MutexUnlock] \<and>
         resources s'' = resources s \<and>
         map_of (semaphore_dependencies s'') 8 = Some \<lparr>triggers = [], should_destroy = True\<rparr>))"
proof -
  let ?xs = "[AddTrigger 7 5 None, ReleaseSemaphore 7, ReleaseSemaphore 8]"
  let ?s = "\<lparr>resources = [],
      semaphore_dependencies = [(7, \<lparr>triggers = [Trigger 5 nullptr None], should_destroy = True\<rparr>),
                                (8, \<lparr>triggers = [], should_destroy = True\<rparr>)],
      mutex_locked = False,
      trace = [MutexLock, MutexUnlock, MutexLock, MutexUnlock, MutexLock, MutexUnlock]\<rparr>"
  let ?s' = "\<lparr>resources = [],
      semaphore_dependencies = [(7, \<lparr>triggers = [Trigger 5 nullptr None], should_destroy = True\<rparr>)],
      mutex_locked = False,
      trace = [MutexLock, MutexUnlock, MutexLock, MutexUnlock, MutexLock, MutexUnlock,
               MutexLock, DestroySemaphore 8, MutexUnlock]\<rparr>"
  have b: "bounded ?xs" by (simp add: bounded_def registered_def)
  have r: "run 0 ?xs init = Inr ?s"
    by (simp add: init_def add_trigger_def release_semaphore_def lock_def unlock_def emit_def
        modify_semaphore_def semaphore_at_def default_semaphore_info_def push_def)
  have c: "collect 0 (poll_all 3) ?s = Inr ?s'"
    by (simp add: collect_def lock_def unlock_def emit_def poll_all_def)
  note t7 = counter_destroyed_when_drained [of ?s 7 0 "poll_all 3" ?xs]
    and t8 = counter_destroyed_when_drained [of ?s 8 0 "poll_all 3" ?xs]
  from t7 c have k7: "map_of (semaphore_dependencies ?s') 7 =
      Some \<lparr>triggers = [Trigger 5 nullptr None], should_destroy = True\<rparr> \<and>
      DestroySemaphore 7 \<notin> set (drop (length (trace ?s)) (trace ?s'))"
    by (simp add: remaining_def poll_all_def)
  from t8 c have k8: "map_of (semaphore_dependencies ?s') 8 = None \<and>
      DestroySemaphore 8 \<in> set (drop (length (trace ?s)) (trace ?s'))"
    by (simp add: remaining_def poll_all_def)
  from t8 have rel: "\<exists>s''. release_semaphore 8 ?s = Inr s'' \<and>
      trace s'' = trace ?s @ [MutexLock, MutexUnlock] \<and> resources s'' = resources ?s \<and>
      map_of (semaphore_dependencies s'') 8 = Some \<lparr>triggers = [], should_destroy = True\<rparr>"
    by (auto simp: semaphore_at_def)
  have "run 0 ?xs init = Inr ?s \<and>
      \<not> mutex_locked ?s \<and> distinct (map fst (semaphore_dependencies ?s)) \<and>
      map_of (semaphore_dependencies ?s) 7 = Some \<lparr>triggers = [Trigger 5 nullptr None], should_destroy = True\<rparr> \<and>
      map_of (semaphore_dependencies ?s) 8 = Some \<lparr>triggers = [], should_destroy = True\<rparr> \<and>
      collect 0 (poll_all 3) ?s = Inr ?s'"
    using r c by simp
  with k7 k8 rel b show ?thesis by blast
qed

section \<open>Callbacks\<close>

lemma callbacks_of_append: "callbacks_of (tr @ tr') = callbacks_of tr @ callbacks_of tr'"
  by (induction tr rule: callbacks_of.induct) auto

lemma callbacks_of_visible: "callbacks_of (visible tr) = callbacks_of tr"
  by (induction tr rule: callbacks_of.induct) (auto simp: visible_simps)

lemma callbacks_of_map: "callbacks_of (map RunCallback fs) = fs"
  by (induction fs) auto

lemma ready_remaining: "ready v ts @ remaining v ts = ts"
  by (simp add: ready_def remaining_def)

lemma callbacks_ready_remaining:
  "mset (callbacks (ready v ts)) + mset (callbacks (remaining v ts)) = mset (callbacks ts)"
  using callbacks_append[of "ready v ts" "remaining v ts"] by (simp add: ready_remaining flip: mset_append)

lemma callbacks_collect_events:
  "mset (callbacks_of (collect_events vals S)) + pending_callbacks (collected vals S) = pending_callbacks S"
proof (induction S)
  case Nil
  then show ?case by simp
next
  case (Cons x S)
  obtain sem i where x: "x = (sem, i)" by (cases x)
  show ?case
    unfolding x
    by (simp add: callbacks_of_append callbacks_of_map Cons[symmetric]
        callbacks_ready_remaining[of "vals sem" "triggers i", symmetric])
qed

lemma pending_callbacks_update:
  "map_of S sem = Some i \<Longrightarrow>
   pending_callbacks (AList.update sem i' S) + mset (callbacks (triggers i))
     = pending_callbacks S + mset (callbacks (triggers i'))"
  by (induction S) (auto split: if_splits)

lemma pending_callbacks_update_new:
  "map_of S sem = None \<Longrightarrow>
   pending_callbacks (AList.update sem i' S) = pending_callbacks S + mset (callbacks (triggers i'))"
  by (induction S) (auto split: if_splits)

lemma pending_callbacks_modify:
  assumes "mset (callbacks (triggers (f (semaphore_at s sem)))) = mset (callbacks (triggers (semaphore_at s sem))) + A"
  shows "pending_callbacks (semaphore_dependencies (modify_semaphore sem f s))
         = pending_callbacks (semaphore_dependencies s) + A"
proof (cases "map_of (semaphore_dependencies s) sem")
  case None
  with assms show ?thesis
    by (simp add: modify_semaphore_def semaphore_at_def pending_callbacks_update_new
        default_semaphore_info_def)
next
  case (Some i)
  from pending_callbacks_update[OF Some, of "f i"] assms Some show ?thesis
    by (simp add: modify_semaphore_def semaphore_at_def)
qed

lemma callbacks_push:
  "mset (callbacks (push t ts)) = mset (callbacks ts) + mset (callbacks [t])"
proof -
  have "mset (callbacks xs) = mset (callbacks ys)" if "mset xs = mset ys" for xs ys :: "trigger list"
  proof -
    have "mset (callbacks zs) = image_mset (\<lambda>t. the (callback t)) (filter_mset (\<lambda>t. callback t \<noteq> None) (mset zs))"
      for zs by (induction zs) (auto split: option.splits)
    with that show ?thesis by simp
  qed
  from this[of "push t ts" "ts @ [t]"] show ?thesis
    by (simp add: push_def callbacks_append)
qed

lemma tally_collect:
  assumes "collect n vals s = Inr s'"
  shows "tally s' = tally s"
proof -
  have "callbacks_of (trace s') = callbacks_of (visible (trace s'))"
    by (simp add: callbacks_of_visible)
  also have "\<dots> = callbacks_of (trace s) @ callbacks_of (collect_events vals (semaphore_dependencies s))"
    by (simp add: collect_visible[OF assms] callbacks_of_append callbacks_of_visible)
  finally show ?thesis
    using callbacks_collect_events[of vals "semaphore_dependencies s"]
    by (simp add: tally_def collect_semaphores[OF assms] ac_simps)
qed

lemma tally_lock_events:
  "set tr \<subseteq> {MutexLock, MutexUnlock, DeviceWaitIdle} \<Longrightarrow>
   semaphore_dependencies s' = semaphore_dependencies s \<Longrightarrow> trace s' = trace s @ tr \<Longrightarrow>
   tally s' = tally s"
proof -
  have "callbacks_of tr = []" if "set tr \<subseteq> {MutexLock, MutexUnlock, DeviceWaitIdle}" for tr
    using that by (induction tr rule: callbacks_of.induct) auto
  then show "set tr \<subseteq> {MutexLock, MutexUnlock, DeviceWaitIdle} \<Longrightarrow>
   semaphore_dependencies s' = semaphore_dependencies s \<Longrightarrow> trace s' = trace s @ tr \<Longrightarrow>
   tally s' = tally s"
    by (simp add: tally_def callbacks_of_append)
qed

lemma tally_wait_collect:
  assumes "wait_collect n vals vals' s = Inr s'"
  shows "tally s' = tally s"
proof -
  from assms obtain s1 where s1: "collect n vals s = Inr s1"
    by (auto simp: wait_collect_def split: sum.splits)
  from collect_trace[OF s1] have l: "\<not> mutex_locked s1" by simp
  let ?sl = "emit MutexLock (s1\<lparr>mutex_locked := True\<rparr>)"
  have lk: "lock s1 = Inr ?sl" using l by (simp add: lock_def)
  show ?thesis
  proof (cases "resources ?sl \<noteq> [] \<or> semaphore_dependencies ?sl \<noteq> []")
    case False
    with assms s1 lk have "s' = unlock ?sl" by (simp add: wait_collect_def)
    then have "tally s' = tally s1"
      by (intro tally_lock_events[of "[MutexLock, MutexUnlock]"]) (simp_all add: unlock_def emit_def)
    with tally_collect[OF s1] show ?thesis by simp
  next
    case True
    let ?s2 = "unlock (emit DeviceWaitIdle ?sl)"
    from True assms s1 lk have "collect n vals' ?s2 = Inr s'" by (simp add: wait_collect_def)
    from tally_collect[OF this] have "tally s' = tally ?s2" .
    also have "\<dots> = tally s1"
      by (intro tally_lock_events[of "[MutexLock, DeviceWaitIdle, MutexUnlock]"])
        (simp_all add: unlock_def emit_def)
    finally show ?thesis using tally_collect[OF s1] by simp
  qed
qed

lemma tally_release:
  assumes "release n r f s = Inr s'"
  shows "tally s' = tally s"
proof -
  from assms obtain s1 s2 where l: "lock s = Inr s1"
    and c: "check_delete n r (modify_resource r (\<lambda>i. i\<lparr>cleanup := f\<rparr>) s1) = Inr s2"
    and s': "s' = unlock s2"
    by (auto simp: release_def split: sum.splits)
  from l have s1: "s1 = emit MutexLock (s\<lparr>mutex_locked := True\<rparr>)"
    by (auto simp: lock_def split: if_splits)
  from cascade_frame(1)[OF c] cascade_visible[OF c] s' s1
  have "semaphore_dependencies s' = semaphore_dependencies s"
    "visible (trace s') = visible (trace s) @ [MutexLock, MutexUnlock]"
    by (simp_all add: unlock_def emit_def modify_resource_def visible_simps)
  then have "semaphore_dependencies s' = semaphore_dependencies s"
    "callbacks_of (visible (trace s')) = callbacks_of (visible (trace s))"
    by (simp_all add: callbacks_of_append)
  then show ?thesis by (simp add: tally_def callbacks_of_visible)
qed

lemma tally_step:
  assumes "step n x s = Inr s'"
  shows "tally s' = tally s + added_callbacks [x]"
proof (cases x)
  case (Release r f)
  with assms tally_release[of n r f s s'] show ?thesis by simp
next
  case (ReleaseSemaphore sem)
  let ?s1 = "emit MutexLock (s\<lparr>mutex_locked := True\<rparr>)"
  have "pending_callbacks (semaphore_dependencies (modify_semaphore sem (\<lambda>i. i\<lparr>should_destroy := True\<rparr>) ?s1))
      = pending_callbacks (semaphore_dependencies ?s1) + {#}"
    by (rule pending_callbacks_modify) simp
  with assms ReleaseSemaphore show ?thesis
    by (auto simp: tally_def release_semaphore_def lock_def unlock_def emit_def frame_modify_semaphore
        callbacks_of_append split: if_splits)
next
  case (Depend used user)
  with assms show ?thesis
    by (auto simp: tally_def depend_def depend_many_def lock_def unlock_def emit_def fold_increment_frame
        increment_def modify_resource_def callbacks_of_append split: if_splits)
next
  case (DependMany used user)
  with assms show ?thesis
    by (auto simp: tally_def depend_many_def lock_def unlock_def emit_def fold_increment_frame
        modify_resource_def callbacks_of_append split: if_splits)
next
  case (DependTimeline used sem v)
  let ?s1 = "increment used (emit MutexLock (s\<lparr>mutex_locked := True\<rparr>))"
  have "pending_callbacks (semaphore_dependencies
        (modify_semaphore sem (\<lambda>i. i\<lparr>triggers := push (Trigger v used None) (triggers i)\<rparr>) ?s1))
      = pending_callbacks (semaphore_dependencies ?s1) + {#}"
    by (rule pending_callbacks_modify) (simp add: callbacks_push)
  with assms DependTimeline show ?thesis
    by (auto simp: tally_def depend_timeline_def lock_def unlock_def emit_def frame_modify_semaphore
        increment_def modify_resource_def callbacks_of_append split: if_splits)
next
  case (AddTrigger sem v f)
  let ?s1 = "emit MutexLock (s\<lparr>mutex_locked := True\<rparr>)"
  have "pending_callbacks (semaphore_dependencies
        (modify_semaphore sem (\<lambda>i. i\<lparr>triggers := push (Trigger v nullptr f) (triggers i)\<rparr>) ?s1))
      = pending_callbacks (semaphore_dependencies ?s1) + mset (callbacks [Trigger v nullptr f])"
    by (rule pending_callbacks_modify) (simp add: callbacks_push)
  with assms AddTrigger show ?thesis
    by (cases f) (auto simp: tally_def add_trigger_def lock_def unlock_def emit_def frame_modify_semaphore
        callbacks_of_append split: if_splits)
next
  case (Collect vals)
  with assms tally_collect[of n vals s s'] show ?thesis by simp
next
  case (WaitCollect vals vals')
  with assms tally_wait_collect[of n vals vals' s s'] show ?thesis by simp
qed

lemma added_callbacks_Cons: "added_callbacks (x # xs) = added_callbacks [x] + added_callbacks xs"
  by (induction "x # xs" rule: added_callbacks.induct) auto

lemma tally_run:
  "run n xs s = Inr s' \<Longrightarrow> tally s' = tally s + added_callbacks xs"
proof (induction xs arbitrary: s)
  case Nil
  then show ?case by simp
next
  case (Cons x xs)
  from Cons.prems obtain s1 where s1: "step n x s = Inr s1" and r: "run n xs s1 = Inr s'"
    by (auto split: sum.splits)
  from tally_step[OF s1] Cons.IH[OF r] added_callbacks_Cons[of x xs] show ?case by simp
qed

lemma collect_empty:
  assumes "semaphore_dependencies s = []" "\<not> mutex_locked s"
  shows "collect n vals s = Inr (s\<lparr>trace := trace s @ [MutexLock, MutexUnlock]\<rparr>)"
  using assms by (simp add: collect_def lock_def unlock_def emit_def)

lemma trigger_scenario:
  "\<exists>s1 s2 s3.
      run n [AddTrigger T 5 (Some f), Collect (poll_all 3)] init = Inr s1 \<and>
      callbacks_of (trace s1) = [] \<and>
      collect n (poll_all 5) s1 = Inr s2 \<and> callbacks_of (trace s2) = [f] \<and>
      collect n vals s2 = Inr s3 \<and> callbacks_of (trace s3) = [f]"
  by (simp add: init_def add_trigger_def collect_def lock_def unlock_def emit_def
      modify_semaphore_def semaphore_at_def default_semaphore_info_def push_def poll_all_def
      fire_def nullptr_def)

text \<open>
  Claim C5. On a state without counters, \<open>collect\<close> takes and releases the mutex and
  changes nothing else. After any run from the initial state, the callbacks that have run
  together with those still in the heaps are, with their multiplicity, the callbacks that
  \<open>add_trigger\<close> registered: none runs more often than it was registered. After
  \<open>add_trigger(T, 5, f)\<close>, a \<open>collect\<close> that polls 3 does not run \<open>f\<close>, the next one,
  polling 5, runs it once, and one more, whatever it polls, does not run it again.
\<close>

theorem callbacks_run_once:
  "(semaphore_dependencies s = [] \<longrightarrow> \<not> mutex_locked s \<longrightarrow>
      collect n vals s = Inr (s\<lparr>trace := trace s @ [MutexLock, MutexUnlock]\<rparr>)) \<and>
   (\<forall>s'. run n xs init = Inr s' \<longrightarrow>
      mset (callbacks_of (trace s')) + pending_callbacks (semaphore_dependencies s') = added_callbacks xs) \<and>
   (\<exists>s1 s2 s3.
      run n [AddTrigger T 5 (Some f), Collect (poll_all 3)] init = Inr s1 \<and>
      callbacks_of (trace s1) = [] \<and>
      collect n (poll_all 5) s1 = Inr s2 \<and> callbacks_of (trace s2) = [f] \<and>
      collect n vals s2 = Inr s3 \<and> callbacks_of (trace s3) = [f])"
proof (intro conjI impI allI)
  assume "semaphore_dependencies s = []" "\<not> mutex_locked s"
  then show "collect n vals s = Inr (s\<lparr>trace := trace s @ [MutexLock, MutexUnlock]\<rparr>)"
    by (rule collect_empty)
next
  fix s'
  assume "run n xs init = Inr s'"
  from tally_run[OF this]
  show "mset (callbacks_of (trace s')) + pending_callbacks (semaphore_dependencies s') = added_callbacks xs"
    by (simp add: tally_def init_def)
next
  show "\<exists>s1 s2 s3.
      run n [AddTrigger T 5 (Some f), Collect (poll_all 3)] init = Inr s1 \<and>
      callbacks_of (trace s1) = [] \<and>
      collect n (poll_all 5) s1 = Inr s2 \<and> callbacks_of (trace s2) = [f] \<and>
      collect n vals s2 = Inr s3 \<and> callbacks_of (trace s3) = [f]"
    by (rule trigger_scenario)
qed

theorem callbacks_run_once_witness:
  "collect 0 (poll_all 3) init = Inr (init\<lparr>trace := [MutexLock, MutexUnlock]\<rparr>) \<and>
   (\<exists>s'. run 0 [AddTrigger 7 5 (Some 1), AddTrigger 7 9 (Some 2), Collect (poll_all 3), Collect (poll_all 5),
                Collect (poll_all 5)] init = Inr s' \<and>
      callbacks_of (trace s') = [1] \<and>
      semaphore_dependencies s' = [(7, \<lparr>triggers = [Trigger 9 nullptr (Some 2)], should_destroy = False\<rparr>)] \<and>
      mset (callbacks_of (trace s')) + pending_callbacks (semaphore_dependencies s') = {#1, 2#})"
proof -
  let ?xs = "[AddTrigger 7 5 (Some 1), AddTrigger 7 9 (Some 2), Collect (poll_all 3), Collect (poll_all 5),
               Collect (poll_all 5)]"
  have r: "run 0 ?xs init =
    Inr \<lparr>resources = [],
         semaphore_dependencies = [(7, \<lparr>triggers = [Trigger 9 nullptr (Some 2)], should_destroy = False\<rparr>)],
         mutex_locked = False,
         trace = [MutexLock, MutexUnlock, MutexLock, MutexUnlock, MutexLock, MutexUnlock,
                  MutexLock, RunCallback 1, MutexUnlock, MutexLock, MutexUnlock]\<rparr>"
    by (simp add: init_def add_trigger_def collect_def lock_def unlock_def emit_def
      modify_semaphore_def semaphore_at_def default_semaphore_info_def push_def poll_all_def
      fire_def nullptr_def)
  from callbacks_run_once [of init 0 "poll_all 3" ?xs 7 1] r show ?thesis
    by (simp add: init_def)
qed

section \<open>Triggers\<close>



























section \<open>\<open>wait_collect\<close>\<close>

lemma finite_dependency_graph: "finite (dependency_graph R)"
proof -
  have "dependency_graph R \<subseteq> fst ` set R \<times> (\<Union>(k, i) \<in> set R. set (dependents i))"
    by (auto simp: dependency_graph_def dest!: map_of_SomeD intro: rev_image_eqI)
  moreover have "finite (fst ` set R \<times> (\<Union>(k, i) \<in> set R. set (dependents i)))"
    by auto
  ultimately show ?thesis by (rule finite_subset)
qed

lemma dependency_graph_survives: "survives R R' \<Longrightarrow> dependency_graph R' \<subseteq> dependency_graph R"
  by (fastforce simp: dependency_graph_def survives_def)

lemma edges_member:
  "d \<in># edges {} R \<Longrightarrow> distinct (map fst R) \<Longrightarrow> \<exists>r i. map_of R r = Some i \<and> d \<in> set (dependents i)"
proof (induction R)
  case Nil
  then show ?case by simp
next
  case (Cons x R)
  obtain k v where x: "x = (k, v)" by (cases x)
  show ?case
  proof (cases "d \<in> set (dependents v)")
    case True
    with x show ?thesis by (intro exI[of _ k] exI[of _ v]) simp
  next
    case False
    with Cons.prems x have "d \<in># edges {} R" by simp
    with Cons obtain r i where r: "map_of R r = Some i" "d \<in> set (dependents i)" by auto
    from r(1) Cons.prems(2) x have "r \<noteq> k"
      by (auto dest!: map_of_SomeD intro: rev_image_eqI)
    with r x show ?thesis by (intro exI[of _ r] exI[of _ i]) simp
  qed
qed

text \<open>
  When the accounting holds with no trigger pending, no record can be deleted, every
  record has a cleanup, \<open>nullptr\<close> has no record and the edges have no cycle, there is
  no record at all.
\<close>

lemma drained_empty:
  assumes a: "accounted {} {#} R" and q: "quiescent {} R"
    and cl: "\<And>r i. map_of R r = Some i \<Longrightarrow> cleanup i \<noteq> None"
    and nn: "map_of R nullptr = None"
    and ac: "acyclic (dependency_graph R)"
  shows "R = []"
proof (rule ccontr)
  assume "R \<noteq> []"
  then have ne: "dom (map_of R) \<noteq> {}" by (cases R) auto
  have pred: "\<exists>r \<in> dom (map_of R). (r, d) \<in> dependency_graph R" if "d \<in> dom (map_of R)" for d
  proof -
    from that obtain i where i: "map_of R d = Some i" by auto
    with nn have dn: "d \<noteq> nullptr" by auto
    from q i cl[OF i] have "dependency_count i \<noteq> 0" by (auto simp: quiescent_def eligible_def)
    then have "0 < unat (dependency_count i)" by (simp add: unat_gt_0)
    with accountedD(1)[OF a, of d] i dn have "d \<in># edges {} R"
      by (auto simp: balanced_def count_greater_zero_iff[symmetric] simp del: count_greater_zero_iff)
    from edges_member[OF this accountedD(2)[OF a]] show ?thesis
      by (auto simp: dependency_graph_def)
  qed
  from finite_dependency_graph ac have "wf (dependency_graph R)" by (rule finite_acyclic_wf)
  from ne obtain x where "x \<in> dom (map_of R)" by blast
  with \<open>wf (dependency_graph R)\<close> obtain z where z: "z \<in> dom (map_of R)"
    "\<And>y. (y, z) \<in> dependency_graph R \<Longrightarrow> y \<notin> dom (map_of R)"
    by (rule wfE_min) blast
  from pred[OF z(1)] z(2) show False by blast
qed

lemma collected_entry:
  "(sem, i') \<in> set (collected vals S) \<Longrightarrow>
   \<exists>i. (sem, i) \<in> set S \<and> should_destroy i' = should_destroy i \<and> set (triggers i') \<subseteq> set (triggers i)"
proof (induction S)
  case Nil
  then show ?case by simp
next
  case (Cons x S)
  obtain k v where x: "x = (k, v)" by (cases x)
  show ?case
  proof (cases "(sem, i') \<in> set (collected vals S)")
    case True
    from Cons.IH[OF this] show ?thesis by auto
  next
    case False
    with Cons.prems x have "sem = k" "i' = v\<lparr>triggers := remaining (vals k) (triggers v)\<rparr>"
      by (auto split: if_splits)
    moreover have "set (remaining (vals k) (triggers v)) \<subseteq> set (triggers v)"
      by (auto simp: remaining_def dest: set_dropWhileD)
    ultimately show ?thesis using x by (intro exI[of _ v]) simp
  qed
qed

lemma collected_all:
  assumes "\<And>sem i. (sem, i) \<in> set S \<Longrightarrow> should_destroy i \<and> (\<forall>t \<in> set (triggers i). trigger_value t \<le> vals sem)"
  shows "collected vals S = []"
  using assms
proof (induction S)
  case Nil
  then show ?case by simp
next
  case (Cons x S)
  obtain k v where x: "x = (k, v)" by (cases x)
  from Cons.prems[of k v] x have "should_destroy v" "remaining (vals k) (triggers v) = []"
    by (auto simp: remaining_def)
  moreover have "collected vals S = []"
  proof (rule Cons.IH)
    fix sem i
    assume "(sem, i) \<in> set S"
    then have "(sem, i) \<in> set (x # S)" by simp
    then show "should_destroy i \<and> (\<forall>t \<in> set (triggers i). trigger_value t \<le> vals sem)"
      by (rule Cons.prems)
  qed
  ultimately show ?case using x by simp
qed

lemma survives_inherit:
  assumes v: "survives R R'"
    and cl: "\<And>r i. map_of R r = Some i \<Longrightarrow> cleanup i \<noteq> None"
    and nn: "map_of R nullptr = None"
    and ac: "acyclic (dependency_graph R)"
  shows "\<And>r i. map_of R' r = Some i \<Longrightarrow> cleanup i \<noteq> None"
    and "map_of R' nullptr = None"
    and "acyclic (dependency_graph R')"
proof -
  fix r i
  assume "map_of R' r = Some i"
  with v obtain i0 where "map_of R r = Some i0" "cleanup i = cleanup i0"
    unfolding survives_def by blast
  with cl show "cleanup i \<noteq> None" by simp
next
  show "map_of R' nullptr = None"
  proof (cases "map_of R' nullptr")
    case (Some i)
    with v obtain i0 where "map_of R nullptr = Some i0" unfolding survives_def by blast
    with nn show ?thesis by simp
  qed simp
next
  from dependency_graph_survives[OF v] ac show "acyclic (dependency_graph R')"
    by (rule acyclic_subset[rotated])
qed

text \<open>
  Claim C6, as the code has it. Let \<open>s\<close> be a state that a bounded run has reached, in
  which every counter has been released and every resource has a cleanup set, \<open>nullptr\<close>
  has no record and the edges of the records have no cycle; let the values polled after
  the wait be at or above every pending target. With more stack frames than the run has
  releases, \<open>wait_collect\<close> returns and leaves both maps empty.
\<close>

theorem wait_collect_drains:
  assumes b: "bounded xs" and r: "run n xs init = Inr s" and n: "release_ops xs < n"
    and cs: "\<forall>(sem, i) \<in> set (semaphore_dependencies s).
               should_destroy i \<and> (\<forall>t \<in> set (triggers i). trigger_value t \<le> vals' sem)"
    and rs: "\<forall>(r, i) \<in> set (resources s). cleanup i \<noteq> None"
    and nn: "map_of (resources s) nullptr = None"
    and ac: "acyclic (dependency_graph (resources s))"
  shows "\<exists>s'. wait_collect n vals vals' s = Inr s' \<and> resources s' = [] \<and> semaphore_dependencies s' = []"
proof -
  from b r have c: "consistent xs s" by (rule reachable_consistent)
  from consistent_collect[OF c n, of vals] obtain s1 where
    s1: "collect n vals s = Inr s1" and c1: "consistent xs s1"
    and v1: "survives (resources s) (resources s1)"
    by blast
  have cl: "cleanup i \<noteq> None" if "map_of (resources s) r = Some i" for r i
    using rs map_of_SomeD[OF that] by auto
  note h1 = survives_inherit[OF v1 cl nn ac]
  have S1: "semaphore_dependencies s1 = collected vals (semaphore_dependencies s)"
    using s1 by (rule collect_semaphores)
  have P1: "should_destroy i \<and> (\<forall>t \<in> set (triggers i). trigger_value t \<le> vals' sem)"
    if "(sem, i) \<in> set (semaphore_dependencies s1)" for sem i
  proof -
    from that collected_entry[of sem i vals "semaphore_dependencies s"] obtain i0 where
      "(sem, i0) \<in> set (semaphore_dependencies s)" "should_destroy i = should_destroy i0"
      "set (triggers i) \<subseteq> set (triggers i0)"
      unfolding S1 by blast
    moreover from this(1) cs
    have "should_destroy i0 \<and> (\<forall>t \<in> set (triggers i0). trigger_value t \<le> vals' sem)"
      by fastforce
    ultimately show ?thesis by blast
  qed
  note l1 = consistentD(1)[OF c1]
  let ?sl = "emit MutexLock (s1\<lparr>mutex_locked := True\<rparr>)"
  have lk: "lock s1 = Inr ?sl" using l1 by (simp add: lock_def)
  have rl: "resources ?sl = resources s1" "semaphore_dependencies ?sl = semaphore_dependencies s1"
    by (simp_all add: emit_def)
  show ?thesis
  proof (cases "resources s1 \<noteq> [] \<or> semaphore_dependencies s1 \<noteq> []")
    case False
    then have "wait_collect n vals vals' s = Inr (unlock ?sl)"
      by (simp add: wait_collect_def s1 lk rl)
    moreover from False have "resources (unlock ?sl) = []" "semaphore_dependencies (unlock ?sl) = []"
      by (simp_all add: unlock_def emit_def)
    ultimately show ?thesis by blast
  next
    case True
    let ?s2 = "unlock (emit DeviceWaitIdle ?sl)"
    have e2: "?s2 = s1\<lparr>trace := trace s1 @ [MutexLock, DeviceWaitIdle, MutexUnlock]\<rparr>"
      using l1 by (simp add: unlock_def emit_def)
    have "consistent xs (s1\<lparr>trace := trace s1 @ [MutexLock, DeviceWaitIdle, MutexUnlock]\<rparr>)"
      using c1 by (rule consistent_lock_events) simp
    then have c2: "consistent xs ?s2" unfolding e2 .
    have r2: "resources ?s2 = resources s1" "semaphore_dependencies ?s2 = semaphore_dependencies s1"
      by (simp_all add: unlock_def emit_def)
    from consistent_collect[OF c2 n, of vals'] obtain s3 where
      s3: "collect n vals' ?s2 = Inr s3" and c3: "consistent xs s3"
      and v3: "survives (resources s1) (resources s3)"
      unfolding r2 by blast
    from True have w: "wait_collect n vals vals' s = Inr s3"
      by (simp add: wait_collect_def s1 lk rl s3)
    have "semaphore_dependencies s3 = collected vals' (semaphore_dependencies s1)"
      using collect_semaphores[OF s3] by (simp add: r2)
    also have "\<dots> = []" by (rule collected_all) (rule P1)
    finally have S3: "semaphore_dependencies s3 = []" .
    note h3 = survives_inherit[OF v3 h1]
    from consistentD(4)[OF c3] have a3: "accounted {} {#} (resources s3)" by (simp add: S3)
    from a3 consistentD(5)[OF c3] h3 have "resources s3 = []" by (rule drained_empty)
    with w S3 show ?thesis by blast
  qed
qed

theorem wait_collect_drains_witness:
  "bounded [Depend 1 2, DependTimeline 2 7 5, Release 1 (Some 11), Release 2 (Some 12), ReleaseSemaphore 7] \<and>
   release_ops [Depend 1 2, DependTimeline 2 7 5, Release 1 (Some 11), Release 2 (Some 12), ReleaseSemaphore 7] < 3 \<and>
   (\<exists>s s'. run 3 [Depend 1 2, DependTimeline 2 7 5, Release 1 (Some 11), Release 2 (Some 12), ReleaseSemaphore 7] init
        = Inr s \<and>
      resources s = [(2, \<lparr>dependency_count = 1, dependents = [1], cleanup = Some 12\<rparr>),
                     (1, \<lparr>dependency_count = 1, dependents = [], cleanup = Some 11\<rparr>)] \<and>
      semaphore_dependencies s = [(7, \<lparr>triggers = [Trigger 5 2 None], should_destroy = True\<rparr>)] \<and>
      acyclic (dependency_graph (resources s)) \<and>
      wait_collect 3 (poll_all 0) (poll_all 5) s = Inr s' \<and>
      resources s' = [] \<and> semaphore_dependencies s' = [] \<and>
      trace s' = trace s @ [MutexLock, MutexUnlock, MutexLock, DeviceWaitIdle, MutexUnlock,
                            MutexLock, Decrement 2 1, RunCleanup 2 12, Decrement 1 1, RunCleanup 1 11,
                            DestroySemaphore 7, MutexUnlock])"
proof -
  let ?xs = "[Depend 1 2, DependTimeline 2 7 5, Release 1 (Some 11), Release 2 (Some 12), ReleaseSemaphore 7]"
  let ?R = "[(2, \<lparr>dependency_count = 1, dependents = [1], cleanup = Some 12\<rparr>),
             (1, \<lparr>dependency_count = 1, dependents = [], cleanup = Some 11\<rparr>)]"
  let ?S = "[(7, \<lparr>triggers = [Trigger 5 2 None], should_destroy = True\<rparr>)]"
  let ?t = "[MutexLock, MutexUnlock, MutexLock, MutexUnlock, MutexLock, MutexUnlock,
             MutexLock, MutexUnlock, MutexLock, MutexUnlock]"
  let ?s = "\<lparr>resources = ?R, semaphore_dependencies = ?S, mutex_locked = False, trace = ?t\<rparr>"
  let ?s' = "\<lparr>resources = [], semaphore_dependencies = [], mutex_locked = False,
      trace = ?t @ [MutexLock, MutexUnlock, MutexLock, DeviceWaitIdle, MutexUnlock,
                    MutexLock, Decrement 2 1, RunCleanup 2 12, Decrement 1 1, RunCleanup 1 11,
                    DestroySemaphore 7, MutexUnlock]\<rparr>"
  have b: "bounded ?xs" by (simp add: bounded_def registered_def)
  have n: "release_ops ?xs < 3" by (simp add: release_ops_def)
  have r: "run 3 ?xs init = Inr ?s"
    by (simp add: init_def depend_def depend_many_def depend_timeline_def release_def
        release_semaphore_def lock_def unlock_def emit_def modify_resource_def modify_semaphore_def
        resources_at_def semaphore_at_def increment_def default_dependency_info_def
        default_semaphore_info_def push_def numeral_3_eq_3)
  have w: "wait_collect 3 (poll_all 0) (poll_all 5) ?s = Inr ?s'"
    by (simp add: wait_collect_def collect_def lock_def unlock_def emit_def poll_all_def fire_def
        nullptr_def decrement_def modify_resource_def resources_at_def numeral_3_eq_3)
  have "dependency_graph ?R = {(2, 1)}"
    by (auto simp: dependency_graph_def split: if_splits)
  moreover have "acyclic ({} :: (ptr \<times> ptr) set)" by (rule wf_acyclic) simp
  ultimately have ac: "acyclic (dependency_graph (resources ?s))"
    by simp
  have cs: "\<forall>(sem, i) \<in> set (semaphore_dependencies ?s).
      should_destroy i \<and> (\<forall>t \<in> set (triggers i). trigger_value t \<le> poll_all 5 sem)"
    by (simp add: poll_all_def)
  have rs: "\<forall>(r, i) \<in> set (resources ?s). cleanup i \<noteq> None" by simp
  have nn: "map_of (resources ?s) nullptr = None" by (simp add: nullptr_def)
  from wait_collect_drains [OF b r n cs rs nn ac, of "poll_all 0"] b n r w ac
  show ?thesis by simp
qed

text \<open>
  The claim as the specification states it fails: with value 5 polled before and after
  the wait, the trigger with target 5 fires, and yet the counter, which was not released,
  keeps its record, and so do the two resources, which were not released either.
\<close>

theorem wait_collect_drains_counterexample:
  "map_sum id (\<lambda>s. (resources s, semaphore_dependencies s, callbacks_of (trace s)))
     (run 1 [Depend 1 2, AddTrigger 7 5 (Some 1), WaitCollect (poll_all 5) (poll_all 5)] init) =
   Inr ([(2, \<lparr>dependency_count = 0, dependents = [1], cleanup = None\<rparr>),
         (1, \<lparr>dependency_count = 1, dependents = [], cleanup = None\<rparr>)],
        [(7, \<lparr>triggers = [], should_destroy = False\<rparr>)], [1])"
  by (simp add: init_def depend_def depend_many_def add_trigger_def wait_collect_def collect_def
      lock_def unlock_def emit_def modify_resource_def modify_semaphore_def resources_at_def
      semaphore_at_def increment_def default_dependency_info_def default_semaphore_info_def
      push_def poll_all_def fire_def nullptr_def)

end
